theory Spec2Isabelle
  imports Main
begin

section \<open>The text-buffer engine of texc (src/main.c)\<close>

text \<open>
  A shallow embedding of the row store, the coordinate mapping, the syntax classifier
  and the incremental search of \<^verbatim>\<open>src/main.c\<close>.

  Conventions of the embedding.
  \<^item> A C buffer together with its length field is a list: the pair \<^verbatim>\<open>(row->c, row->len)\<close>
    is the list \<open>chars\<close>, \<^verbatim>\<open>(row->render, row->rlen)\<close> is \<open>render\<close>, and the array
    \<^verbatim>\<open>row->hl\<close> is \<open>hl\<close>. The NUL byte that the code keeps behind the last element of
    \<^verbatim>\<open>c\<close> and \<^verbatim>\<open>render\<close> is not stored in the list; a read at the index \<open>length\<close> gives
    it back (\<open>byte_at\<close>).
  \<^item> C \<^verbatim>\<open>int\<close> values are \<open>int\<close>. Positions, lengths and indices are bounded by the
    sizes of the buffers, and the model does not wrap them. The counter \<^verbatim>\<open>ec.dirty\<close> is
    bounded by nothing but its type: \<^verbatim>\<open>ec.dirty++\<close> is written with the wrap-around of a
    32-bit \<^verbatim>\<open>int\<close> (\<open>wrap_int\<close>), which is what the compiled program does at
    \<^verbatim>\<open>INT_MAX\<close>.
  \<^item> The global \<^verbatim>\<open>ec\<close> is passed and returned explicitly; a pointer \<^verbatim>\<open>&ec.row[k]\<close> is
    the position \<open>k\<close>.
\<close>

subsection \<open>Constants and data\<close>

definition TAB_STOP :: int where
  "TAB_STOP = 8"

text \<open>\<^verbatim>\<open>INT_MAX\<close> and \<^verbatim>\<open>INT_MIN\<close> of a 32-bit \<^verbatim>\<open>int\<close>, and the value that such an \<^verbatim>\<open>int\<close> holds
  after an arithmetic result \<open>x\<close> has been stored into it (two's complement).\<close>

definition INT_MAX :: int where
  "INT_MAX = 2147483647"

definition INT_MIN :: int where
  "INT_MIN = - 2147483648"

definition wrap_int :: "int \<Rightarrow> int" where
  "wrap_int x = (x + 2147483648) mod 4294967296 - 2147483648"

definition NUL :: char where
  "NUL = CHR 0x00"

definition TAB :: char where
  "TAB = CHR 0x09"

definition SPACE :: char where
  "SPACE = CHR '' ''"

text \<open>\<^verbatim>\<open>buf[j]\<close> for a NUL-terminated buffer of \<open>length s\<close> bytes: index \<open>length s\<close> holds
  the terminator. An index beyond it or below 0 is outside the allocation (undefined in
  C); the model reads NUL there.\<close>

definition byte_at :: "string \<Rightarrow> int \<Rightarrow> char" where
  "byte_at s j = (if 0 \<le> j \<and> j < int (length s) then s ! nat j else NUL)"

text \<open>\<^verbatim>\<open>enum editor_highlight\<close>, the classes stored in \<^verbatim>\<open>row->hl\<close>.\<close>

datatype editor_highlight =
    HL_NORMAL
  | HL_STRING
  | HL_NUMBER
  | HL_COMMENT
  | HL_MLCOMMENT
  | HL_KEYWORD1
  | HL_KEYWORD2
  | HL_MATCH

record erow =
  idx :: int
  chars :: string
  render :: string
  hl :: "editor_highlight list"
  hl_open_comment :: bool

text \<open>The fields \<^verbatim>\<open>len\<close> and \<^verbatim>\<open>rlen\<close> of \<^verbatim>\<open>erow_t\<close>.\<close>

definition len :: "erow \<Rightarrow> int" where
  "len r = int (length (chars r))"

definition rlen :: "erow \<Rightarrow> int" where
  "rlen r = int (length (render r))"

subsection \<open>Coordinate mapping\<close>

text \<open>One iteration of the loop body shared by \<^verbatim>\<open>editor_row_cx2rx\<close> and
  \<^verbatim>\<open>editor_row_rx2cx\<close>: a tab first moves to the last column before the next tab stop,
  then every character advances by one. The column is never negative, so C's \<^verbatim>\<open>%\<close>
  agrees with \<open>mod\<close>.\<close>

definition advance_rx :: "char \<Rightarrow> int \<Rightarrow> int" where
  "advance_rx ch rx =
     (if ch = TAB then rx + ((TAB_STOP - 1) - (rx mod TAB_STOP)) else rx) + 1"

function cx2rx_loop :: "string \<Rightarrow> int \<Rightarrow> int \<Rightarrow> int \<Rightarrow> int" where
  "cx2rx_loop s cx j rx =
     (if j < cx then cx2rx_loop s cx (j + 1) (advance_rx (byte_at s j) rx) else rx)"
  by pat_completeness auto
termination
  by (relation "measure (\<lambda>(s, cx, j, rx). nat (cx - j))") auto

definition editor_row_cx2rx :: "erow \<Rightarrow> int \<Rightarrow> int" where
  "editor_row_cx2rx r cx = cx2rx_loop (chars r) cx 0 0"

function rx2cx_loop :: "string \<Rightarrow> int \<Rightarrow> int \<Rightarrow> int \<Rightarrow> int" where
  "rx2cx_loop s rx cx cur_rx =
     (if cx < int (length s) then
        (let cur = advance_rx (byte_at s cx) cur_rx
         in if cur > rx then cx else rx2cx_loop s rx (cx + 1) cur)
      else cx)"
  by pat_completeness auto
termination
  by (relation "measure (\<lambda>(s, rx, cx, cur_rx). nat (int (length s) - cx))") auto

definition editor_row_rx2cx :: "erow \<Rightarrow> int \<Rightarrow> int" where
  "editor_row_rx2cx r rx = rx2cx_loop (chars r) rx 0 0"

declare cx2rx_loop.simps [simp del]

declare rx2cx_loop.simps [simp del]

subsection \<open>C strings\<close>

text \<open>A \<^verbatim>\<open>char *\<close> string is given by the bytes of its buffer; the terminator is implicit
  behind the last byte of the list, and an earlier NUL byte ends the string there.\<close>

definition cstr :: "string \<Rightarrow> string" where
  "cstr s = takeWhile (\<lambda>x. x \<noteq> NUL) s"

definition strlen :: "string \<Rightarrow> nat" where
  "strlen s = length (cstr s)"

text \<open>The first byte of a buffer, the terminator when the list is used up.\<close>

definition first_byte :: "string \<Rightarrow> char" where
  "first_byte s = (case s of [] \<Rightarrow> NUL | x # xs \<Rightarrow> x)"

text \<open>\<^verbatim>\<open>strncmp(a, b, n) == 0\<close>: at most \<open>n\<close> bytes are compared, and the comparison
  stops behind a NUL that both strings have at the same place.\<close>

fun strncmp_eq :: "string \<Rightarrow> string \<Rightarrow> nat \<Rightarrow> bool" where
  "strncmp_eq a b 0 = True"
| "strncmp_eq a b (Suc n) =
     (if first_byte a \<noteq> first_byte b then False
      else if first_byte a = NUL then True
      else strncmp_eq (tl a) (tl b) n)"


text \<open>\<^verbatim>\<open>strstr(h, q)\<close>: the offset of the first occurrence of the string \<open>q\<close> in the
  string \<open>h\<close>, \<open>None\<close> for the NULL result. The empty string occurs at offset 0.\<close>

fun find_sub :: "string \<Rightarrow> string \<Rightarrow> nat \<Rightarrow> nat option" where
  "find_sub [] q off = (if q = [] then Some off else None)"
| "find_sub (x # xs) q off =
     (if take (length q) (x # xs) = q then Some off else find_sub xs q (Suc off))"

definition strstr :: "string \<Rightarrow> string \<Rightarrow> nat option" where
  "strstr h q = find_sub (cstr h) (cstr q) 0"


text \<open>\<^verbatim>\<open>memset(&a[i], v, n)\<close> on an array given as a list. Inside the array this is C's
  \<^verbatim>\<open>memset\<close>; a write that runs past the end of the array (undefined in C) shows in
  the model as a list that has grown.\<close>

definition memset :: "'a list \<Rightarrow> nat \<Rightarrow> 'a \<Rightarrow> nat \<Rightarrow> 'a list" where
  "memset a i v n = take i a @ replicate n v @ drop (i + n) a"

subsection \<open>Syntax definitions\<close>

definition HL_SYN_NUMBERS :: int where
  "HL_SYN_NUMBERS = 1"

definition HL_SYN_STRINGS :: int where
  "HL_SYN_STRINGS = 2"

text \<open>\<^verbatim>\<open>esyn_t\<close>. The NULL-terminated arrays \<^verbatim>\<open>filematch\<close> and \<^verbatim>\<open>keywords\<close> (\<open>keywords_list\<close>) are lists; a
  comment marker may be the NULL pointer.\<close>

record esyn =
  filetype :: string
  filematch :: "string list"
  keywords_list :: "string list"
  singleline_comment_start :: "string option"
  multiline_comment_start :: "string option"
  multiline_comment_end :: "string option"
  flags :: int

definition C_HL_EXT :: "string list" where
  "C_HL_EXT = [''.c'', ''.h'', ''.cpp'']"

definition C_HL_KEY :: "string list" where
  "C_HL_KEY =
     [''switch'', ''if'', ''while'', ''for'', ''break'', ''continue'', ''return'', ''else'',
      ''struct'', ''union'', ''typedef'', ''static'', ''enum'', ''class'', ''case'',
      ''int|'', ''long|'', ''double|'', ''float|'', ''char|'', ''unsigned|'', ''signed|'',
      ''void|'']"

definition HLDB :: "esyn list" where
  "HLDB =
     [\<lparr>filetype = ''c'', filematch = C_HL_EXT, keywords_list = C_HL_KEY,
       singleline_comment_start = Some ''//'',
       multiline_comment_start = Some ''/*'',
       multiline_comment_end = Some ''*/'',
       flags = or HL_SYN_NUMBERS HL_SYN_STRINGS\<rparr>]"

subsection \<open>Character classes\<close>

text \<open>\<^verbatim>\<open>isspace\<close> and \<^verbatim>\<open>isdigit\<close> in the C locale.\<close>

definition isspace :: "char \<Rightarrow> bool" where
  "isspace ch = (ch \<in> set [CHR '' '', CHR 0x09, CHR 0x0A, CHR 0x0B, CHR 0x0C, CHR 0x0D])"

definition isdigit :: "char \<Rightarrow> bool" where
  "isdigit ch = (ch \<in> set ''0123456789'')"

text \<open>\<^verbatim>\<open>is_separator\<close>. \<^verbatim>\<open>strchr\<close> also finds the terminator of its string, which is the
  case \<open>ch = NUL\<close> again.\<close>

definition is_separator :: "char \<Rightarrow> bool" where
  "is_separator ch = (isspace ch \<or> ch = NUL \<or> ch \<in> set '',.()+-/*=~%<>[];'')"

subsection \<open>The scan of one row\<close>

text \<open>The variables of the \<^verbatim>\<open>while\<close> loop of \<^verbatim>\<open>editor_update_syntax\<close>: the array
  \<^verbatim>\<open>row->hl\<close>, \<^verbatim>\<open>i\<close>, \<^verbatim>\<open>prev_sep\<close>, \<^verbatim>\<open>in_string\<close> (NUL for 0, else the opening quote)
  and \<^verbatim>\<open>in_comment\<close>.\<close>

record hl_scan =
  hls :: "editor_highlight list"
  pos :: nat
  prev_sep :: bool
  in_string :: char
  in_comment :: bool

text \<open>How an iteration of the loop ends: with \<^verbatim>\<open>break\<close>, or with the next test of the
  loop condition (\<^verbatim>\<open>continue\<close>, or the end of the body).\<close>

datatype loop_exit = Break hl_scan | Continue hl_scan

definition marker_len :: "string option \<Rightarrow> nat" where
  "marker_len m = (case m of None \<Rightarrow> 0 | Some s \<Rightarrow> strlen s)"

definition marker_str :: "string option \<Rightarrow> string" where
  "marker_str m = (case m of None \<Rightarrow> [] | Some s \<Rightarrow> s)"

text \<open>The \<^verbatim>\<open>for\<close> loop over \<^verbatim>\<open>keywords[j]\<close>: the class and the compared length of the
  first entry that matches at \<open>i\<close>, \<open>None\<close> when the loop runs to the NULL entry.
  For an empty entry the C code reads \<^verbatim>\<open>keywords[j][-1]\<close>, a byte in front of the
  string; the model takes the entry for one without the marker.\<close>

fun match_keywords :: "string list \<Rightarrow> string \<Rightarrow> nat \<Rightarrow> (editor_highlight \<times> nat) option" where
  "match_keywords [] rnd i = None"
| "match_keywords (kw # kws) rnd i =
     (let klen0 = strlen kw;
          kw2 = (klen0 > 0 \<and> kw ! (klen0 - 1) = CHR ''|'');
          klen = (if kw2 then klen0 - 1 else klen0)
      in if strncmp_eq (drop i rnd) kw klen \<and> is_separator (byte_at rnd (int (i + klen)))
         then Some (if kw2 then HL_KEYWORD2 else HL_KEYWORD1, klen)
         else match_keywords kws rnd i)"

text \<open>The blocks of the loop body, in the order of the source. Each gives \<open>None\<close> when
  control falls through to the next block.\<close>

definition scan_line_comment :: "esyn \<Rightarrow> string \<Rightarrow> hl_scan \<Rightarrow> loop_exit option" where
  "scan_line_comment syn rnd st =
     (let i = pos st; scs_len = marker_len (singleline_comment_start syn)
      in if scs_len \<noteq> 0 \<and> in_string st = NUL \<and> \<not> in_comment st
            \<and> strncmp_eq (drop i rnd) (marker_str (singleline_comment_start syn)) scs_len
         then Some (Break (st\<lparr>hls := memset (hls st) i HL_COMMENT (length rnd - i)\<rparr>))
         else None)"

definition scan_block_comment :: "esyn \<Rightarrow> string \<Rightarrow> hl_scan \<Rightarrow> loop_exit option" where
  "scan_block_comment syn rnd st =
     (let i = pos st;
          mcs_len = marker_len (multiline_comment_start syn);
          mce_len = marker_len (multiline_comment_end syn)
      in if mcs_len \<noteq> 0 \<and> mce_len \<noteq> 0 \<and> in_string st = NUL then
           (if in_comment st then
              (let h = (hls st)[i := HL_MLCOMMENT]
               in if strncmp_eq (drop i rnd) (marker_str (multiline_comment_end syn)) mce_len
                  then Some (Continue (st\<lparr>hls := memset h i HL_MLCOMMENT mce_len,
                                           pos := i + mce_len,
                                           in_comment := False,
                                           prev_sep := True\<rparr>))
                  else Some (Continue (st\<lparr>hls := h, pos := i + 1\<rparr>)))
            else if strncmp_eq (drop i rnd) (marker_str (multiline_comment_start syn)) mcs_len
            then Some (Continue (st\<lparr>hls := memset (hls st) i HL_MLCOMMENT mcs_len,
                                     pos := i + mcs_len,
                                     in_comment := True\<rparr>))
            else None)
         else None)"

definition scan_string :: "esyn \<Rightarrow> string \<Rightarrow> hl_scan \<Rightarrow> loop_exit option" where
  "scan_string syn rnd st =
     (let i = pos st; ch = byte_at rnd (int i)
      in if and (flags syn) HL_SYN_STRINGS \<noteq> 0 then
           (if in_string st \<noteq> NUL then
              (let h = (hls st)[i := HL_STRING]
               in if ch = CHR 0x5C \<and> i + 1 < length rnd
                  then Some (Continue (st\<lparr>hls := h[i + 1 := HL_STRING], pos := i + 2\<rparr>))
                  else Some (Continue (st\<lparr>hls := h,
                                           in_string := (if ch = in_string st then NUL
                                                         else in_string st),
                                           pos := i + 1,
                                           prev_sep := True\<rparr>)))
            else if ch = CHR 0x22 \<or> ch = CHR 0x27
            then Some (Continue (st\<lparr>in_string := ch,
                                     hls := (hls st)[i := HL_STRING],
                                     pos := i + 1\<rparr>))
            else None)
         else None)"

definition scan_number :: "esyn \<Rightarrow> string \<Rightarrow> hl_scan \<Rightarrow> loop_exit option" where
  "scan_number syn rnd st =
     (let i = pos st; ch = byte_at rnd (int i);
          prev_hl = (if i > 0 then hls st ! (i - 1) else HL_NORMAL)
      in if and (flags syn) HL_SYN_NUMBERS \<noteq> 0
            \<and> ((isdigit ch \<and> (prev_sep st \<or> prev_hl = HL_NUMBER))
                \<or> (ch = CHR ''.'' \<and> prev_hl = HL_NUMBER))
         then Some (Continue (st\<lparr>hls := (hls st)[i := HL_NUMBER],
                                  pos := i + 1,
                                  prev_sep := False\<rparr>))
         else None)"

definition scan_keyword :: "esyn \<Rightarrow> string \<Rightarrow> hl_scan \<Rightarrow> loop_exit option" where
  "scan_keyword syn rnd st =
     (let i = pos st
      in if prev_sep st then
           (case match_keywords (keywords_list syn) rnd i of
              Some (cls, klen) \<Rightarrow>
                Some (Continue (st\<lparr>hls := memset (hls st) i cls klen,
                                    pos := i + klen,
                                    prev_sep := False\<rparr>))
            | None \<Rightarrow> None)
         else None)"

definition scan_other :: "string \<Rightarrow> hl_scan \<Rightarrow> loop_exit" where
  "scan_other rnd st =
     Continue (st\<lparr>prev_sep := is_separator (byte_at rnd (int (pos st))), pos := pos st + 1\<rparr>)"

text \<open>One iteration of the loop body, entered with \<open>pos st < length rnd\<close>.\<close>

definition scan_step :: "esyn \<Rightarrow> string \<Rightarrow> hl_scan \<Rightarrow> loop_exit" where
  "scan_step syn rnd st =
     (case scan_line_comment syn rnd st of
        Some e \<Rightarrow> e
      | None \<Rightarrow>
     (case scan_block_comment syn rnd st of
        Some e \<Rightarrow> e
      | None \<Rightarrow>
     (case scan_string syn rnd st of
        Some e \<Rightarrow> e
      | None \<Rightarrow>
     (case scan_number syn rnd st of
        Some e \<Rightarrow> e
      | None \<Rightarrow>
     (case scan_keyword syn rnd st of
        Some e \<Rightarrow> e
      | None \<Rightarrow> scan_other rnd st)))))"

text \<open>The \<^verbatim>\<open>while (i < row->rlen)\<close> loop. An iteration either moves \<open>i\<close> forward or,
  when a keyword entry of compared length 0 matches, clears \<open>prev_sep\<close> so that the next
  iteration moves \<open>i\<close>.\<close>

definition scan_measure :: "string \<Rightarrow> hl_scan \<Rightarrow> nat" where
  "scan_measure rnd st = 2 * (length rnd - pos st) + (if prev_sep st then 1 else 0)"

lemma scan_line_comment_decreases:
  "scan_line_comment syn rnd st = Some (Continue st') \<Longrightarrow>
   scan_measure rnd st' < scan_measure rnd st"
  by (simp add: scan_line_comment_def Let_def split: if_splits)

lemma scan_block_comment_decreases:
  "pos st < length rnd \<Longrightarrow> scan_block_comment syn rnd st = Some (Continue st') \<Longrightarrow>
   scan_measure rnd st' < scan_measure rnd st"
  by (auto simp: scan_block_comment_def scan_measure_def Let_def split: if_splits)

lemma scan_string_decreases:
  "pos st < length rnd \<Longrightarrow> scan_string syn rnd st = Some (Continue st') \<Longrightarrow>
   scan_measure rnd st' < scan_measure rnd st"
  by (auto simp: scan_string_def scan_measure_def Let_def split: if_splits)

lemma scan_number_decreases:
  "pos st < length rnd \<Longrightarrow> scan_number syn rnd st = Some (Continue st') \<Longrightarrow>
   scan_measure rnd st' < scan_measure rnd st"
  by (auto simp: scan_number_def scan_measure_def Let_def split: if_splits)

lemma scan_keyword_decreases:
  "pos st < length rnd \<Longrightarrow> scan_keyword syn rnd st = Some (Continue st') \<Longrightarrow>
   scan_measure rnd st' < scan_measure rnd st"
  by (auto simp: scan_keyword_def scan_measure_def Let_def
      split: if_splits option.splits prod.splits)

lemma scan_other_decreases:
  "pos st < length rnd \<Longrightarrow> scan_other rnd st = Continue st' \<Longrightarrow>
   scan_measure rnd st' < scan_measure rnd st"
  by (auto simp: scan_other_def scan_measure_def)

lemma scan_step_decreases:
  "pos st < length rnd \<Longrightarrow> scan_step syn rnd st = Continue st' \<Longrightarrow>
   scan_measure rnd st' < scan_measure rnd st"
  unfolding scan_step_def
  by (auto split: option.splits
      dest: scan_line_comment_decreases scan_block_comment_decreases scan_string_decreases
        scan_number_decreases scan_keyword_decreases scan_other_decreases)

function scan_loop :: "esyn \<Rightarrow> string \<Rightarrow> hl_scan \<Rightarrow> hl_scan" where
  "scan_loop syn rnd st =
     (if pos st < length rnd then
        (case scan_step syn rnd st of
           Break st' \<Rightarrow> st'
         | Continue st' \<Rightarrow> scan_loop syn rnd st')
      else st)"
  by pat_completeness auto
termination
  by (relation "measure (\<lambda>(syn, rnd, st). scan_measure rnd st)")
     (auto intro: scan_step_decreases)

declare scan_loop.simps [simp del]

subsection \<open>The editor state\<close>

text \<open>The fields of \<^verbatim>\<open>editor_config_t\<close> that the row store, the cursor and the search
  use. \<^verbatim>\<open>ec.syntax\<close> (\<open>esyntax\<close>) is NULL or points to an entry of \<open>HLDB\<close>. The array
  \<^verbatim>\<open>ec.row\<close> is the list \<open>row\<close>; \<^verbatim>\<open>ec.num_rows\<close> is kept as a field of its own, since
  \<^verbatim>\<open>editor_insert_row\<close> updates the two at different moments.\<close>

record editor_config =
  cursor_x :: int
  cursor_y :: int
  num_rows :: int
  row_off :: int
  clo_off :: int
  dirty :: int
  row :: "erow list"
  filename :: "string option"
  esyntax :: "esyn option"

text \<open>\<^verbatim>\<open>ec.row[k]\<close> read through an \<^verbatim>\<open>int\<close> index. An index outside the allocated array
  is undefined in C; the model has no result for it (\<open>None\<close>).\<close>

definition row_at :: "editor_config \<Rightarrow> int \<Rightarrow> erow option" where
  "row_at ec k = (if 0 \<le> k \<and> k < int (length (row ec)) then Some (row ec ! nat k) else None)"

subsection \<open>Syntax update with cascade\<close>

text \<open>The initial value of \<^verbatim>\<open>in_comment\<close>:
  \<^verbatim>\<open>row->idx > 0 && ec.row[row->idx - 1].hl_open_comment\<close>.\<close>

definition incoming_comment :: "editor_config \<Rightarrow> erow \<Rightarrow> bool option" where
  "incoming_comment ec r =
     (if idx r > 0 then map_option hl_open_comment (row_at ec (idx r - 1)) else Some False)"

text \<open>The loop variables at the start of the scan, after \<^verbatim>\<open>realloc\<close> and \<^verbatim>\<open>memset\<close> of
  \<^verbatim>\<open>row->hl\<close>.\<close>

definition scan_init :: "string \<Rightarrow> bool \<Rightarrow> hl_scan" where
  "scan_init rnd ic =
     \<lparr>hls = replicate (length rnd) HL_NORMAL, pos = 0, prev_sep = True, in_string = NUL,
      in_comment = ic\<rparr>"

text \<open>\<^verbatim>\<open>editor_update_syntax(&ec.row[k])\<close>. The function calls itself on the row
  \<^verbatim>\<open>ec.row[row->idx + 1]\<close> while the flag \<^verbatim>\<open>hl_open_comment\<close> changes; the recursion goes
  through the \<^verbatim>\<open>idx\<close> fields, so that not returning is a value of the model (\<open>None\<close>),
  as is a row outside the array.\<close>

partial_function (option) editor_update_syntax :: "editor_config \<Rightarrow> nat \<Rightarrow> editor_config option"
where
  "editor_update_syntax ec k =
     (if k < length (row ec) then
        (let r = row ec ! k;
             h0 = replicate (length (render r)) HL_NORMAL
         in case esyntax ec of
              None \<Rightarrow> Some (ec\<lparr>row := (row ec)[k := r\<lparr>hl := h0\<rparr>]\<rparr>)
            | Some syn \<Rightarrow>
               (case incoming_comment ec r of
                  None \<Rightarrow> None
                | Some ic \<Rightarrow>
                   (let st = scan_loop syn (render r) (scan_init (render r) ic);
                        changed = (hl_open_comment r \<noteq> in_comment st);
                        ec' = ec\<lparr>row := (row ec)[k := r\<lparr>hl := hls st,
                                                         hl_open_comment := in_comment st\<rparr>]\<rparr>
                    in if changed \<and> idx r + 1 < num_rows ec then
                         (if 0 \<le> idx r + 1 \<and> idx r + 1 < int (length (row ec))
                          then editor_update_syntax ec' (nat (idx r + 1))
                          else None)
                       else Some ec')))
      else None)"

subsection \<open>Row operations\<close>

text \<open>The inner loop \<^verbatim>\<open>while (idx % TAB_STOP != 0) row->render[idx++] = ' '\<close>.\<close>

lemma pad_tab_measure:
  "int (length rnd) mod TAB_STOP \<noteq> 0 \<Longrightarrow>
   nat ((TAB_STOP - int (length (rnd @ [SPACE])) mod TAB_STOP) mod TAB_STOP)
   < nat ((TAB_STOP - int (length rnd) mod TAB_STOP) mod TAB_STOP)"
  unfolding TAB_STOP_def by (simp del: of_nat_Suc) presburger

function pad_tab :: "string \<Rightarrow> string" where
  "pad_tab rnd =
     (if int (length rnd) mod TAB_STOP \<noteq> 0 then pad_tab (rnd @ [SPACE]) else rnd)"
  by pat_completeness auto
termination
  by (relation "measure (\<lambda>rnd. nat ((TAB_STOP - int (length rnd) mod TAB_STOP) mod TAB_STOP))")
     (simp_all only: wf_measure in_measure, erule pad_tab_measure)

declare pad_tab.simps [simp del]

text \<open>The second loop of \<^verbatim>\<open>editor_update_row\<close>, over the bytes of \<^verbatim>\<open>row->c\<close>; the second
  argument is what has been written to \<^verbatim>\<open>row->render\<close> so far.\<close>

fun render_loop :: "string \<Rightarrow> string \<Rightarrow> string" where
  "render_loop [] rnd = rnd"
| "render_loop (ch # cs) rnd =
     (if ch = TAB then render_loop cs (pad_tab (rnd @ [SPACE]))
      else render_loop cs (rnd @ [ch]))"

definition editor_update_row :: "editor_config \<Rightarrow> nat \<Rightarrow> editor_config option" where
  "editor_update_row ec k =
     (if k < length (row ec) then
        (let r = row ec ! k
         in editor_update_syntax
              (ec\<lparr>row := (row ec)[k := r\<lparr>render := render_loop (chars r) []\<rparr>]\<rparr>) k)
      else None)"

text \<open>\<^verbatim>\<open>editor_insert_row(at, s, len)\<close>; the pair \<^verbatim>\<open>(s, len)\<close> is the list \<open>s\<close>. The array
  of \<^verbatim>\<open>ec.num_rows\<close> rows is reallocated to one more, the rows from \<open>at\<close> on move up and
  their \<^verbatim>\<open>idx\<close> is incremented. The new row is updated before \<^verbatim>\<open>ec.num_rows\<close> is
  incremented.\<close>

definition editor_insert_row :: "editor_config \<Rightarrow> int \<Rightarrow> string \<Rightarrow> editor_config option" where
  "editor_insert_row ec at s =
     (if at < 0 \<or> at > num_rows ec then Some ec
      else
        (let old = take (nat (num_rows ec)) (row ec);
             moved = map (\<lambda>r. r\<lparr>idx := idx r + 1\<rparr>) (drop (nat at) old);
             new = \<lparr>idx = at, chars = s, render = [], hl = [], hl_open_comment = False\<rparr>;
             ec1 = ec\<lparr>row := take (nat at) old @ [new] @ moved\<rparr>
         in case editor_update_row ec1 (nat at) of
              None \<Rightarrow> None
            | Some ec2 \<Rightarrow> Some (ec2\<lparr>num_rows := num_rows ec2 + 1, dirty := wrap_int (dirty ec2 + 1)\<rparr>)))"

definition editor_del_row :: "editor_config \<Rightarrow> int \<Rightarrow> editor_config" where
  "editor_del_row ec at =
     (if at < 0 \<or> at \<ge> num_rows ec then ec
      else
        (let old = take (nat (num_rows ec)) (row ec);
             moved = map (\<lambda>r. r\<lparr>idx := idx r - 1\<rparr>) (drop (nat at + 1) old)
         in ec\<lparr>row := take (nat at) old @ moved,
               num_rows := num_rows ec - 1,
               dirty := wrap_int (dirty ec + 1)\<rparr>))"

text \<open>\<^verbatim>\<open>editor_row_insert_char(&ec.row[k], at, c)\<close>. The \<^verbatim>\<open>int c\<close> is stored into a
  \<^verbatim>\<open>char\<close>, which keeps its low 8 bits.\<close>

definition editor_row_insert_char :: "editor_config \<Rightarrow> nat \<Rightarrow> int \<Rightarrow> int \<Rightarrow> editor_config option"
where
  "editor_row_insert_char ec k at c =
     (if k < length (row ec) then
        (let r = row ec ! k;
             at' = (if at < 0 \<or> at > len r then len r else at);
             r' = r\<lparr>chars := take (nat at') (chars r) @ [char_of c] @ drop (nat at') (chars r)\<rparr>
         in case editor_update_row (ec\<lparr>row := (row ec)[k := r']\<rparr>) k of
              None \<Rightarrow> None
            | Some ec2 \<Rightarrow> Some (ec2\<lparr>dirty := wrap_int (dirty ec2 + 1)\<rparr>))
      else None)"

definition editor_row_append_str :: "editor_config \<Rightarrow> nat \<Rightarrow> string \<Rightarrow> editor_config option"
where
  "editor_row_append_str ec k s =
     (if k < length (row ec) then
        (let r = row ec ! k;
             r' = r\<lparr>chars := chars r @ s\<rparr>
         in case editor_update_row (ec\<lparr>row := (row ec)[k := r']\<rparr>) k of
              None \<Rightarrow> None
            | Some ec2 \<Rightarrow> Some (ec2\<lparr>dirty := wrap_int (dirty ec2 + 1)\<rparr>))
      else None)"

definition editor_row_del_char :: "editor_config \<Rightarrow> nat \<Rightarrow> int \<Rightarrow> editor_config option" where
  "editor_row_del_char ec k at =
     (if k < length (row ec) then
        (let r = row ec ! k
         in if at < 0 \<or> at \<ge> len r then Some ec
            else
              (let r' = r\<lparr>chars := take (nat at) (chars r) @ drop (nat at + 1) (chars r)\<rparr>
               in case editor_update_row (ec\<lparr>row := (row ec)[k := r']\<rparr>) k of
                    None \<Rightarrow> None
                  | Some ec2 \<Rightarrow> Some (ec2\<lparr>dirty := wrap_int (dirty ec2 + 1)\<rparr>)))
      else None)"

subsection \<open>Editor operations\<close>

text \<open>A row pointer \<^verbatim>\<open>&ec.row[y]\<close> taken from an \<^verbatim>\<open>int\<close>: the position when it lies in the
  array.\<close>

definition row_ptr :: "editor_config \<Rightarrow> int \<Rightarrow> nat option" where
  "row_ptr ec y = (if 0 \<le> y \<and> y < int (length (row ec)) then Some (nat y) else None)"

definition editor_insert_char :: "editor_config \<Rightarrow> int \<Rightarrow> editor_config option" where
  "editor_insert_char ec c =
     (case (if cursor_y ec = num_rows ec then editor_insert_row ec (num_rows ec) []
            else Some ec) of
        None \<Rightarrow> None
      | Some ec1 \<Rightarrow>
         (case row_ptr ec1 (cursor_y ec1) of
            None \<Rightarrow> None
          | Some k \<Rightarrow>
             (case editor_row_insert_char ec1 k (cursor_x ec1) c of
                None \<Rightarrow> None
              | Some ec2 \<Rightarrow> Some (ec2\<lparr>cursor_x := cursor_x ec2 + 1\<rparr>))))"

text \<open>\<^verbatim>\<open>editor_insert_newline\<close>. In the second branch the suffix
  \<^verbatim>\<open>&row->c[ec.cursor_x]\<close> of length \<^verbatim>\<open>row->len - ec.cursor_x\<close> becomes the new row; a
  cursor column outside \<open>[0, len]\<close> makes that length negative or the pointer leave the
  buffer (\<open>None\<close>).\<close>

definition editor_insert_newline :: "editor_config \<Rightarrow> editor_config option" where
  "editor_insert_newline ec =
     (case (if cursor_x ec = 0 then editor_insert_row ec (cursor_y ec) []
            else
              (case row_at ec (cursor_y ec) of
                 None \<Rightarrow> None
               | Some r \<Rightarrow>
                  (if cursor_x ec < 0 \<or> cursor_x ec > len r then None
                   else
                     (case editor_insert_row ec (cursor_y ec + 1)
                             (drop (nat (cursor_x ec)) (chars r)) of
                        None \<Rightarrow> None
                      | Some ec1 \<Rightarrow>
                         (case row_ptr ec1 (cursor_y ec1) of
                            None \<Rightarrow> None
                          | Some k \<Rightarrow>
                             (let r1 = row ec1 ! k;
                                  r2 = r1\<lparr>chars := take (nat (cursor_x ec1)) (chars r1)\<rparr>
                              in editor_update_row (ec1\<lparr>row := (row ec1)[k := r2]\<rparr>) k)))))) of
        None \<Rightarrow> None
      | Some ec3 \<Rightarrow> Some (ec3\<lparr>cursor_y := cursor_y ec3 + 1, cursor_x := 0\<rparr>))"

definition editor_del_char :: "editor_config \<Rightarrow> editor_config option" where
  "editor_del_char ec =
     (if cursor_y ec = num_rows ec then Some ec
      else if cursor_x ec = 0 \<and> cursor_y ec = 0 then Some ec
      else
        (case row_ptr ec (cursor_y ec) of
           None \<Rightarrow> None
         | Some k \<Rightarrow>
            (if cursor_x ec > 0 then
               (case editor_row_del_char ec k (cursor_x ec - 1) of
                  None \<Rightarrow> None
                | Some ec1 \<Rightarrow> Some (ec1\<lparr>cursor_x := cursor_x ec1 - 1\<rparr>))
             else
               (case row_ptr ec (cursor_y ec - 1) of
                  None \<Rightarrow> None
                | Some p \<Rightarrow>
                   (let ec0 = ec\<lparr>cursor_x := len (row ec ! p)\<rparr>
                    in case editor_row_append_str ec0 p (chars (row ec0 ! k)) of
                         None \<Rightarrow> None
                       | Some ec1 \<Rightarrow>
                          (let ec2 = editor_del_row ec1 (cursor_y ec1)
                           in Some (ec2\<lparr>cursor_y := cursor_y ec2 - 1\<rparr>)))))))"

subsection \<open>Selecting the syntax definition\<close>





subsection \<open>Loading and saving\<close>







subsection \<open>Search\<close>

definition ARROW_LEFT :: int where
  "ARROW_LEFT = 1000"

definition ARROW_RIGHT :: int where
  "ARROW_RIGHT = 1001"

definition ARROW_UP :: int where
  "ARROW_UP = 1002"

definition ARROW_DOWN :: int where
  "ARROW_DOWN = 1003"

text \<open>The \<^verbatim>\<open>static\<close> variables of \<^verbatim>\<open>editor_find_callback\<close>; \<open>saved_hl = None\<close> is the NULL
  pointer.\<close>

record find_state =
  last_match :: int
  direction :: int
  saved_hl_line :: int
  saved_hl :: "editor_highlight list option"

definition find_state_init :: find_state where
  "find_state_init = \<lparr>last_match = -1, direction = 1, saved_hl_line = 0, saved_hl = None\<rparr>"

text \<open>\<^verbatim>\<open>memcpy(dst, src, n)\<close> on arrays given as lists.\<close>

definition memcpy :: "'a list \<Rightarrow> 'a list \<Rightarrow> nat \<Rightarrow> 'a list" where
  "memcpy dst src n = take n src @ drop n dst"

text \<open>The first block of the callback: the saved highlight goes back to its row.\<close>

definition find_restore :: "editor_config \<Rightarrow> find_state \<Rightarrow> (editor_config \<times> find_state) option"
where
  "find_restore ec fs =
     (case saved_hl fs of
        None \<Rightarrow> Some (ec, fs)
      | Some sv \<Rightarrow>
         (case row_at ec (saved_hl_line fs) of
            None \<Rightarrow> None
          | Some r \<Rightarrow>
             Some (ec\<lparr>row := (row ec)[nat (saved_hl_line fs) :=
                                  r\<lparr>hl := memcpy (hl r) sv (length (render r))\<rparr>]\<rparr>,
                   fs\<lparr>saved_hl := None\<rparr>)))"

text \<open>The body of \<^verbatim>\<open>if (match)\<close>: \<open>c\<close> is \<^verbatim>\<open>current\<close>, \<open>r\<close> the row \<^verbatim>\<open>ec.row[current]\<close> and
  \<open>m\<close> the offset \<^verbatim>\<open>match - row->render\<close>. The cursor moves to the match, the highlight
  array of the row is saved, and the matched span is marked.\<close>

definition find_hit ::
  "string \<Rightarrow> editor_config \<Rightarrow> find_state \<Rightarrow> int \<Rightarrow> erow \<Rightarrow> nat \<Rightarrow> editor_config \<times> find_state"
where
  "find_hit query ec fs c r m =
     (ec\<lparr>cursor_y := c,
         cursor_x := editor_row_rx2cx r (int m),
         row := (row ec)[nat c := r\<lparr>hl := memset (hl r) m HL_MATCH (strlen query)\<rparr>]\<rparr>,
      fs\<lparr>last_match := c,
         saved_hl_line := c,
         saved_hl := Some (take (length (render r)) (hl r))\<rparr>)"

text \<open>The \<^verbatim>\<open>for\<close> loop of the callback, entered with the loop counter \<open>i\<close> and the
  variable \<open>current\<close>.\<close>

function find_scan ::
  "string \<Rightarrow> editor_config \<Rightarrow> find_state \<Rightarrow> int \<Rightarrow> int \<Rightarrow> (editor_config \<times> find_state) option"
where
  "find_scan query ec fs current i =
     (if i < num_rows ec then
        (let c1 = current + direction fs;
             c2 = (if c1 = - 1 then num_rows ec - 1
                   else if c1 = num_rows ec then 0
                   else c1)
         in case row_at ec c2 of
              None \<Rightarrow> None
            | Some r \<Rightarrow>
               (case strstr (render r) query of
                  Some m \<Rightarrow> Some (find_hit query ec fs c2 r m)
                | None \<Rightarrow> find_scan query ec fs c2 (i + 1)))
      else Some (ec, fs))"
  by pat_completeness auto
termination
  by (relation "measure (\<lambda>(query, ec, fs, current, i). nat (num_rows ec - i))") auto

declare find_scan.simps [simp del]

text \<open>The keys: \<^verbatim>\<open>'\r'\<close> is 13 and \<^verbatim>\<open>'\x1b'\<close> is 27.\<close>

definition find_direction :: "int \<Rightarrow> find_state \<Rightarrow> find_state" where
  "find_direction key fs =
     (let fs1 = (if key = ARROW_RIGHT \<or> key = ARROW_DOWN then fs\<lparr>direction := 1\<rparr>
                 else if key = ARROW_LEFT \<or> key = ARROW_UP then fs\<lparr>direction := -1\<rparr>
                 else fs\<lparr>last_match := -1, direction := 1\<rparr>)
      in if last_match fs1 = -1 then fs1\<lparr>direction := 1\<rparr> else fs1)"

definition editor_find_callback ::
  "string \<Rightarrow> int \<Rightarrow> editor_config \<Rightarrow> find_state \<Rightarrow> (editor_config \<times> find_state) option"
where
  "editor_find_callback query key ec fs =
     (case find_restore ec fs of
        None \<Rightarrow> None
      | Some (ec1, fs1) \<Rightarrow>
         (if key = 13 \<or> key = 27 then Some (ec1, fs1\<lparr>last_match := -1, direction := 1\<rparr>)
          else
            (let fs2 = find_direction key fs1
             in find_scan query ec1 fs2 (last_match fs2) 0)))"

text \<open>The calls of the callback during one search. \<^verbatim>\<open>editor_prompt\<close> calls it once after
  each key, with the text typed so far and the key; between these calls nothing else
  touches the document. A session is the list of these pairs, and \<open>find_session\<close> runs
  the calls one after the other.\<close>

fun find_session ::
  "(string \<times> int) list \<Rightarrow> editor_config \<Rightarrow> find_state \<Rightarrow> (editor_config \<times> find_state) option"
where
  "find_session [] ec fs = Some (ec, fs)"
| "find_session ((query, key) # ks) ec fs =
     (case editor_find_callback query key ec fs of
        None \<Rightarrow> None
      | Some (ec', fs') \<Rightarrow> find_session ks ec' fs')"

subsection \<open>Cursor movement\<close>

text \<open>\<^verbatim>\<open>editor_move_cursor\<close>. The pointer \<^verbatim>\<open>row\<close> is NULL when \<^verbatim>\<open>ec.cursor_y\<close> is not below
  \<^verbatim>\<open>ec.num_rows\<close>; where the code reads \<^verbatim>\<open>row->len\<close> the row has to lie in the array.\<close>

definition cursor_row_len :: "editor_config \<Rightarrow> int option option" where
  "cursor_row_len ec =
     (if cursor_y ec \<ge> num_rows ec then Some None
      else (case row_at ec (cursor_y ec) of
              None \<Rightarrow> None
            | Some r \<Rightarrow> Some (Some (len r))))"

definition move_key :: "editor_config \<Rightarrow> int \<Rightarrow> editor_config option" where
  "move_key ec key =
     (if key = ARROW_LEFT then
        (if cursor_x ec \<noteq> 0 then Some (ec\<lparr>cursor_x := cursor_x ec - 1\<rparr>)
         else if cursor_y ec > 0 then
           (case row_at ec (cursor_y ec - 1) of
              None \<Rightarrow> None
            | Some r \<Rightarrow> Some (ec\<lparr>cursor_y := cursor_y ec - 1, cursor_x := len r\<rparr>))
         else Some ec)
      else if key = ARROW_RIGHT then
        (case cursor_row_len ec of
           None \<Rightarrow> None
         | Some None \<Rightarrow> Some ec
         | Some (Some l) \<Rightarrow>
            (if cursor_x ec < l then Some (ec\<lparr>cursor_x := cursor_x ec + 1\<rparr>)
             else if cursor_x ec = l then Some (ec\<lparr>cursor_y := cursor_y ec + 1, cursor_x := 0\<rparr>)
             else Some ec))
      else if key = ARROW_UP then
        (if cursor_y ec \<noteq> 0 then Some (ec\<lparr>cursor_y := cursor_y ec - 1\<rparr>) else Some ec)
      else if key = ARROW_DOWN then
        (if cursor_y ec < num_rows ec then Some (ec\<lparr>cursor_y := cursor_y ec + 1\<rparr>) else Some ec)
      else Some ec)"

definition editor_move_cursor :: "editor_config \<Rightarrow> int \<Rightarrow> editor_config option" where
  "editor_move_cursor ec key =
     (case move_key ec key of
        None \<Rightarrow> None
      | Some ec1 \<Rightarrow>
         (case cursor_row_len ec1 of
            None \<Rightarrow> None
          | Some rl \<Rightarrow>
             (let row_len = (case rl of None \<Rightarrow> 0 | Some l \<Rightarrow> l)
              in if cursor_x ec1 > row_len then Some (ec1\<lparr>cursor_x := row_len\<rparr>)
                 else Some ec1)))"

subsection \<open>Well-formed documents\<close>

text \<open>The state of a loop iteration whichever way it ends.\<close>

definition exit_state :: "loop_exit \<Rightarrow> hl_scan" where
  "exit_state e = (case e of Break st \<Rightarrow> st | Continue st \<Rightarrow> st)"

text \<open>Every row carries its own position in \<^verbatim>\<open>idx\<close>.\<close>

definition idx_ok :: "erow list \<Rightarrow> bool" where
  "idx_ok rs = (map idx rs = map int [0 ..< length rs])"

text \<open>\<^verbatim>\<open>ec.num_rows\<close> is the number of rows of the array, and the rows are numbered.\<close>

definition doc_wf :: "editor_config \<Rightarrow> bool" where
  "doc_wf ec = (num_rows ec = int (length (row ec)) \<and> idx_ok (row ec))"

text \<open>The size invariant of a row: the render text is at least as long as the raw text,
  and the highlight array has one element for each byte of render text.\<close>

definition row_inv :: "erow \<Rightarrow> bool" where
  "row_inv r = (length (chars r) \<le> length (render r) \<and> length (hl r) = length (render r))"

definition doc_inv :: "editor_config \<Rightarrow> bool" where
  "doc_inv ec = (doc_wf ec \<and> list_all row_inv (row ec))"

text \<open>Two states that agree on the cursor, the scroll offsets, the file name and the
  syntax definition.\<close>

definition frame_eq :: "editor_config \<Rightarrow> editor_config \<Rightarrow> bool" where
  "frame_eq ec ec' =
     (cursor_x ec' = cursor_x ec \<and> cursor_y ec' = cursor_y ec \<and> row_off ec' = row_off ec
      \<and> clo_off ec' = clo_off ec \<and> filename ec' = filename ec \<and> esyntax ec' = esyntax ec)"

text \<open>What a syntax update started at row \<open>k\<close> may change: highlight data of rows from
  \<open>k\<close> on. \<open>rehighlighted\<close> relates the states before and after
  \<^verbatim>\<open>editor_update_syntax\<close>, \<open>row_updated\<close> those before and after \<^verbatim>\<open>editor_update_row\<close>.\<close>

definition same_text :: "erow \<Rightarrow> erow \<Rightarrow> bool" where
  "same_text r r' = (idx r' = idx r \<and> chars r' = chars r \<and> render r' = render r)"

definition hl_sized :: "erow \<Rightarrow> bool" where
  "hl_sized r = (length (hl r) = length (render r))"

definition rehighlighted :: "nat \<Rightarrow> editor_config \<Rightarrow> editor_config \<Rightarrow> bool" where
  "rehighlighted k ec ec' =
     (ec' = ec\<lparr>row := row ec'\<rparr> \<and> length (row ec') = length (row ec)
      \<and> (\<forall>j < length (row ec).
            same_text (row ec ! j) (row ec' ! j)
            \<and> (j < k \<longrightarrow> row ec' ! j = row ec ! j)
            \<and> (hl_sized (row ec ! j) \<longrightarrow> hl_sized (row ec' ! j)))
      \<and> hl_sized (row ec' ! k))"

definition row_updated :: "nat \<Rightarrow> editor_config \<Rightarrow> editor_config \<Rightarrow> bool" where
  "row_updated k ec ec' =
     (ec' = ec\<lparr>row := row ec'\<rparr> \<and> length (row ec') = length (row ec)
      \<and> (\<forall>j < length (row ec).
            idx (row ec' ! j) = idx (row ec ! j)
            \<and> chars (row ec' ! j) = chars (row ec ! j)
            \<and> (j < k \<longrightarrow> row ec' ! j = row ec ! j)
            \<and> (j \<noteq> k \<longrightarrow> row_inv (row ec ! j) \<longrightarrow> row_inv (row ec' ! j)))
      \<and> row_inv (row ec' ! k)
      \<and> render (row ec' ! k) = render_loop (chars (row ec ! k)) [])"


text \<open>The cursor is on the document: on one of the lines \<open>0 .. num_rows\<close>, and either at
  column 0 or on a row, at one of its bytes or at its end.\<close>

definition cursor_ok :: "editor_config \<Rightarrow> bool" where
  "cursor_ok ec =
     (0 \<le> cursor_y ec \<and> cursor_y ec \<le> num_rows ec
      \<and> (cursor_x ec = 0
          \<or> (cursor_y ec < num_rows ec \<and> 0 \<le> cursor_x ec
             \<and> cursor_x ec \<le> len (row ec ! nat (cursor_y ec)))))"


text \<open>The order in which a search scan visits the rows of a document of \<open>n\<close> rows: \<open>k\<close>
  rows, starting behind \<open>c\<close> in the direction \<open>dir\<close>; an index below 0 wraps to the last
  row, an index at or above \<open>n\<close> wraps to 0.\<close>

definition wrap_index :: "int \<Rightarrow> int \<Rightarrow> int" where
  "wrap_index n c = (if c < 0 then n - 1 else if c \<ge> n then 0 else c)"

fun scan_order :: "int \<Rightarrow> int \<Rightarrow> int \<Rightarrow> nat \<Rightarrow> int list" where
  "scan_order n dir c 0 = []"
| "scan_order n dir c (Suc k) = wrap_index n (c + dir) # scan_order n dir (wrap_index n (c + dir)) k"

text \<open>The render text of row \<open>c\<close> contains the query: \<^verbatim>\<open>strstr\<close> finds it.\<close>

definition row_matches :: "editor_config \<Rightarrow> string \<Rightarrow> int \<Rightarrow> bool" where
  "row_matches ec query c = (strstr (render (row ec ! nat c)) query \<noteq> None)"

text \<open>A search state as the callback keeps it: the direction is forward or backward, and
  \<open>last_match\<close> is a row of the document or \<open>-1\<close>, then with the direction forward.\<close>

definition find_state_ok :: "editor_config \<Rightarrow> find_state \<Rightarrow> bool" where
  "find_state_ok ec fs =
     ((direction fs = 1 \<or> direction fs = - 1)
      \<and> - 1 \<le> last_match fs \<and> last_match fs < num_rows ec
      \<and> (last_match fs = - 1 \<longrightarrow> direction fs = 1))"

text \<open>A keyword entry as the specification reads it: an entry that ends in \<^verbatim>\<open>|\<close> is a
  secondary keyword, and its text is the entry without that marker. The entry stands at
  position \<open>i\<close> of a render text when its text is exactly the text at \<open>i\<close> and the byte
  behind it is a separator, or the row ends there.\<close>

definition kw_marked :: "string \<Rightarrow> bool" where
  "kw_marked kw = (cstr kw \<noteq> [] \<and> last (cstr kw) = CHR ''|'')"

definition kw_text :: "string \<Rightarrow> string" where
  "kw_text kw = (if kw_marked kw then butlast (cstr kw) else cstr kw)"

definition kw_class :: "string \<Rightarrow> editor_highlight" where
  "kw_class kw = (if kw_marked kw then HL_KEYWORD2 else HL_KEYWORD1)"

definition keyword_at :: "string \<Rightarrow> nat \<Rightarrow> string \<Rightarrow> bool" where
  "keyword_at rnd i kw =
     (take (length (kw_text kw)) (drop i rnd) = kw_text kw
      \<and> (i + length (kw_text kw) = length rnd
         \<or> (i + length (kw_text kw) < length rnd
            \<and> is_separator (rnd ! (i + length (kw_text kw))))))"

text \<open>A row whose highlight data is consistent with its content and with the row in front
  of it: the highlight array and the flag \<^verbatim>\<open>hl_open_comment\<close> are what the scan of the
  render text gives when it starts with the flag of the preceding row. With no syntax
  selected the array is all \<^verbatim>\<open>HL_NORMAL\<close>, and the flag is whatever it was.\<close>

definition row_consistent :: "editor_config \<Rightarrow> nat \<Rightarrow> bool" where
  "row_consistent ec k =
     (let r = row ec ! k
      in case esyntax ec of
           None \<Rightarrow> hl r = replicate (length (render r)) HL_NORMAL
         | Some syn \<Rightarrow>
            (case incoming_comment ec r of
               None \<Rightarrow> False
             | Some ic \<Rightarrow>
                hl r = hls (scan_loop syn (render r) (scan_init (render r) ic))
                \<and> hl_open_comment r
                    = in_comment (scan_loop syn (render r) (scan_init (render r) ic))))"

definition doc_consistent :: "editor_config \<Rightarrow> bool" where
  "doc_consistent ec = list_all (row_consistent ec) [0 ..< length (row ec)]"

text \<open>The search state between two calls of the callback: \<open>last_match\<close> is \<open>-1\<close> or a row
  of the document, and a saved highlight belongs to a row of the document and has the
  length of its render text.\<close>

definition search_inv :: "editor_config \<Rightarrow> find_state \<Rightarrow> bool" where
  "search_inv ec fs =
     (- 1 \<le> last_match fs \<and> last_match fs < num_rows ec
      \<and> (case saved_hl fs of
            None \<Rightarrow> True
          | Some sv \<Rightarrow>
             0 \<le> saved_hl_line fs \<and> saved_hl_line fs < num_rows ec
             \<and> length sv = length (render (row ec ! nat (saved_hl_line fs)))))"

text \<open>The text \<open>s\<close> contains \<open>q\<close> as a substring: \<open>q\<close> stands at one of the offsets
  \<open>0 .. length s\<close>.\<close>

definition contains_sub :: "string \<Rightarrow> string \<Rightarrow> bool" where
  "contains_sub s q = list_ex (\<lambda>i. take (length q) (drop i s) = q) [0 ..< Suc (length s)]"

subsection \<open>Reference definitions and example documents\<close>

text \<open>An offset clamped to the interval \<open>[0, n]\<close>, and the insertion of one byte at a
  position of a string.\<close>

definition clamp_at :: "int \<Rightarrow> int \<Rightarrow> int" where
  "clamp_at at n = max 0 (min at n)"

definition insert_at :: "string \<Rightarrow> nat \<Rightarrow> char \<Rightarrow> string" where
  "insert_at cs p ch = take p cs @ [ch] @ drop p cs"

text \<open>The empty document after \<^verbatim>\<open>editor_init\<close>, and a document with the single row
  \<^verbatim>\<open>ab\<close> and no syntax definition.\<close>

definition ec_empty :: editor_config where
  "ec_empty =
     \<lparr>cursor_x = 0, cursor_y = 0, num_rows = 0, row_off = 0, clo_off = 0, dirty = 0,
      row = [], filename = None, esyntax = None\<rparr>"

definition ec_ab :: editor_config where
  "ec_ab =
     \<lparr>cursor_x = 0, cursor_y = 0, num_rows = 1, row_off = 0, clo_off = 0, dirty = 0,
      row = [\<lparr>idx = 0, chars = ''ab'', render = ''ab'', hl = [HL_NORMAL, HL_NORMAL],
              hl_open_comment = False\<rparr>],
      filename = None, esyntax = None\<rparr>"

text \<open>A document with the rows \<^verbatim>\<open>abc\<close> and \<^verbatim>\<open>d\<close> and the cursor at the end of the first
  row.\<close>

definition ec_two :: editor_config where
  "ec_two =
     \<lparr>cursor_x = 3, cursor_y = 0, num_rows = 2, row_off = 0, clo_off = 0, dirty = 0,
      row = [\<lparr>idx = 0, chars = ''abc'', render = ''abc'',
               hl = [HL_NORMAL, HL_NORMAL, HL_NORMAL], hl_open_comment = False\<rparr>,
             \<lparr>idx = 1, chars = ''d'', render = ''d'', hl = [HL_NORMAL],
               hl_open_comment = False\<rparr>],
      filename = None, esyntax = None\<rparr>"





text \<open>A document with the rows \<^verbatim>\<open>foo\<close>, \<^verbatim>\<open>bar\<close> and \<^verbatim>\<open>baz\<close>, no syntax selected, and a search
  state whose last match is on the last row.\<close>

definition ec_foo :: editor_config where
  "ec_foo =
     \<lparr>cursor_x = 1, cursor_y = 2, num_rows = 3, row_off = 0, clo_off = 0, dirty = 0,
      row = [\<lparr>idx = 0, chars = ''foo'', render = ''foo'',
               hl = [HL_NORMAL, HL_NORMAL, HL_NORMAL], hl_open_comment = False\<rparr>,
             \<lparr>idx = 1, chars = ''bar'', render = ''bar'',
               hl = [HL_NORMAL, HL_NORMAL, HL_NORMAL], hl_open_comment = False\<rparr>,
             \<lparr>idx = 2, chars = ''baz'', render = ''baz'',
               hl = [HL_NORMAL, HL_NORMAL, HL_NORMAL], hl_open_comment = False\<rparr>],
      filename = None, esyntax = None\<rparr>"

definition fs_at_2 :: find_state where
  "fs_at_2 = \<lparr>last_match = 2, direction = 1, saved_hl_line = 0, saved_hl = None\<rparr>"

text \<open>The same document after a search for \<^verbatim>\<open>ba\<close> from the initial search state (typed
  in one key or, as \<^verbatim>\<open>b\<close> and \<^verbatim>\<open>a\<close>, in two): the
  cursor is on the second row, whose first two highlight bytes are \<^verbatim>\<open>HL_MATCH\<close>, and the
  search state holds the saved highlight of that row.\<close>

definition ec_bar_hit :: editor_config where
  "ec_bar_hit =
     ec_foo\<lparr>cursor_x := 0, cursor_y := 1,
            row := (row ec_foo)[1 := (row ec_foo ! 1)\<lparr>hl := [HL_MATCH, HL_MATCH, HL_NORMAL]\<rparr>]\<rparr>"

definition fs_bar_hit :: find_state where
  "fs_bar_hit =
     \<lparr>last_match = 1, direction = 1, saved_hl_line = 1,
      saved_hl = Some [HL_NORMAL, HL_NORMAL, HL_NORMAL]\<rparr>"

text \<open>Two one-row documents of a C file, \<^verbatim>\<open>integer\<close> and \<^verbatim>\<open>int x\<close>, not yet highlighted.\<close>

definition ec_integer :: editor_config where
  "ec_integer =
     \<lparr>cursor_x = 0, cursor_y = 0, num_rows = 1, row_off = 0, clo_off = 0, dirty = 0,
      row = [\<lparr>idx = 0, chars = ''integer'', render = ''integer'', hl = [],
              hl_open_comment = False\<rparr>],
      filename = Some ''a.c'', esyntax = Some (HLDB ! 0)\<rparr>"

definition ec_int_x :: editor_config where
  "ec_int_x =
     \<lparr>cursor_x = 0, cursor_y = 0, num_rows = 1, row_off = 0, clo_off = 0, dirty = 0,
      row = [\<lparr>idx = 0, chars = ''int x'', render = ''int x'', hl = [],
              hl_open_comment = False\<rparr>],
      filename = Some ''a.c'', esyntax = Some (HLDB ! 0)\<rparr>"

text \<open>A C file of three rows, with a comment over the first two, highlighted; and the same
  rows with the highlight data of plain text on the first two.\<close>

definition ec_comment :: editor_config where
  "ec_comment =
     \<lparr>cursor_x = 0, cursor_y = 0, num_rows = 3, row_off = 0, clo_off = 0, dirty = 0,
      row = [\<lparr>idx = 0, chars = ''/*a'', render = ''/*a'',
               hl = [HL_MLCOMMENT, HL_MLCOMMENT, HL_MLCOMMENT], hl_open_comment = True\<rparr>,
             \<lparr>idx = 1, chars = ''b*/'', render = ''b*/'',
               hl = [HL_MLCOMMENT, HL_MLCOMMENT, HL_MLCOMMENT], hl_open_comment = False\<rparr>,
             \<lparr>idx = 2, chars = ''int x'', render = ''int x'',
               hl = [HL_KEYWORD2, HL_KEYWORD2, HL_KEYWORD2, HL_NORMAL, HL_NORMAL],
               hl_open_comment = False\<rparr>],
      filename = Some ''a.c'', esyntax = Some (HLDB ! 0)\<rparr>"

definition ec_stale :: editor_config where
  "ec_stale =
     \<lparr>cursor_x = 0, cursor_y = 0, num_rows = 3, row_off = 0, clo_off = 0, dirty = 0,
      row = [\<lparr>idx = 0, chars = ''/*a'', render = ''/*a'',
               hl = [HL_NORMAL, HL_NORMAL, HL_NORMAL], hl_open_comment = False\<rparr>,
             \<lparr>idx = 1, chars = ''b*/'', render = ''b*/'',
               hl = [HL_NORMAL, HL_NORMAL, HL_NORMAL], hl_open_comment = False\<rparr>,
             \<lparr>idx = 2, chars = ''int x'', render = ''int x'',
               hl = [HL_KEYWORD2, HL_KEYWORD2, HL_KEYWORD2, HL_NORMAL, HL_NORMAL],
               hl_open_comment = False\<rparr>],
      filename = Some ''a.c'', esyntax = Some (HLDB ! 0)\<rparr>"

text \<open>A document of two rows: \<^verbatim>\<open>a\<close>, a NUL byte and \<^verbatim>\<open>foo\<close>; and \<^verbatim>\<open>foo\<close>.\<close>

definition ec_nul :: editor_config where
  "ec_nul =
     \<lparr>cursor_x = 0, cursor_y = 0, num_rows = 2, row_off = 0, clo_off = 0, dirty = 0,
      row = [\<lparr>idx = 0, chars = [CHR ''a'', NUL, CHR ''f'', CHR ''o'', CHR ''o''],
               render = [CHR ''a'', NUL, CHR ''f'', CHR ''o'', CHR ''o''],
               hl = [HL_NORMAL, HL_NORMAL, HL_NORMAL, HL_NORMAL, HL_NORMAL],
               hl_open_comment = False\<rparr>,
             \<lparr>idx = 1, chars = ''foo'', render = ''foo'',
               hl = [HL_NORMAL, HL_NORMAL, HL_NORMAL], hl_open_comment = False\<rparr>],
      filename = None, esyntax = None\<rparr>"

section \<open>Properties of the coordinate mapping\<close>


lemma advance_rx_gt: "0 \<le> rx \<Longrightarrow> rx < advance_rx ch rx"
proof -
  have "rx mod 8 < 8" by simp
  then have "rx mod 8 \<le> 7" by linarith
  then show ?thesis
    by (simp add: advance_rx_def TAB_STOP_def)
qed

lemma cx2rx_loop_done: "cx \<le> j \<Longrightarrow> cx2rx_loop s cx j rx = rx"
  by (simp add: cx2rx_loop.simps)

text \<open>Running the loop one character further applies one more step at the end.\<close>

lemma cx2rx_loop_snoc:
  "j \<le> cx \<Longrightarrow>
   cx2rx_loop s (cx + 1) j rx = advance_rx (byte_at s cx) (cx2rx_loop s cx j rx)"
proof (induction s cx j rx rule: cx2rx_loop.induct)
  case (1 s cx j rx)
  show ?case
  proof (cases "j < cx")
    case True
    have "cx2rx_loop s (cx + 1) j rx
          = cx2rx_loop s (cx + 1) (j + 1) (advance_rx (byte_at s j) rx)"
      using True by (subst cx2rx_loop.simps) simp
    also have "\<dots> = advance_rx (byte_at s cx)
                     (cx2rx_loop s cx (j + 1) (advance_rx (byte_at s j) rx))"
      using True "1.IH" by simp
    also have "cx2rx_loop s cx (j + 1) (advance_rx (byte_at s j) rx) = cx2rx_loop s cx j rx"
      using True by (subst (2) cx2rx_loop.simps) simp
    finally show ?thesis .
  next
    case False
    with "1.prems" have eq: "j = cx" by simp
    have "cx2rx_loop s (cx + 1) cx rx
          = cx2rx_loop s (cx + 1) (cx + 1) (advance_rx (byte_at s cx) rx)"
      by (subst cx2rx_loop.simps) simp
    then show ?thesis
      using eq by (simp add: cx2rx_loop_done)
  qed
qed

lemma cx2rx_loop_nonneg: "0 \<le> rx \<Longrightarrow> 0 \<le> cx2rx_loop s cx j rx"
proof (induction s cx j rx rule: cx2rx_loop.induct)
  case (1 s cx j rx)
  show ?case
  proof (cases "j < cx")
    case True
    have "0 \<le> advance_rx (byte_at s j) rx"
      using advance_rx_gt [OF "1.prems", of "byte_at s j"] "1.prems" by simp
    then have "0 \<le> cx2rx_loop s cx (j + 1) (advance_rx (byte_at s j) rx)"
      using True "1.IH" by simp
    then show ?thesis
      using True by (subst cx2rx_loop.simps) simp
  next
    case False
    then show ?thesis
      using "1.prems" by (simp add: cx2rx_loop_done)
  qed
qed

lemma cx2rx_step: "0 \<le> k \<Longrightarrow> cx2rx_loop s k 0 0 < cx2rx_loop s (k + 1) 0 0"
  using cx2rx_loop_snoc [of 0 k s 0] advance_rx_gt [OF cx2rx_loop_nonneg [of 0 s k 0]]
  by simp

lemma cx2rx_mono_nat: "cx2rx_loop s (int a) 0 0 \<le> cx2rx_loop s (int a + int d) 0 0"
proof (induction d)
  case 0
  then show ?case by simp
next
  case (Suc d)
  have "cx2rx_loop s (int a + int d) 0 0 < cx2rx_loop s ((int a + int d) + 1) 0 0"
    by (rule cx2rx_step) simp
  moreover have "(int a + int d) + 1 = int a + int (Suc d)" by simp
  ultimately show ?case
    using Suc by (simp del: of_nat_Suc)
qed

lemma cx2rx_mono: "0 \<le> a \<Longrightarrow> a \<le> b \<Longrightarrow> cx2rx_loop s a 0 0 \<le> cx2rx_loop s b 0 0"
  using cx2rx_mono_nat [of s "nat a" "nat (b - a)"] by simp

text \<open>The inverse walk, started at \<open>cx\<close> with the column of \<open>cx\<close>, stops at \<open>k\<close> when
  asked for the column of \<open>k\<close>.\<close>

lemma rx2cx_loop_inverse:
  "0 \<le> cx \<Longrightarrow> cx \<le> k \<Longrightarrow> k \<le> int (length s) \<Longrightarrow> cur = cx2rx_loop s cx 0 0 \<Longrightarrow>
   rx2cx_loop s (cx2rx_loop s k 0 0) cx cur = k"
proof (induction s "cx2rx_loop s k 0 0" cx cur rule: rx2cx_loop.induct)
  case (1 s cx cur)
  show ?case
  proof (cases "cx < int (length s)")
    case False
    with "1.prems" have "cx = k" by simp
    with False show ?thesis
      by (subst rx2cx_loop.simps) simp
  next
    case inside: True
    have next_col: "advance_rx (byte_at s cx) cur = cx2rx_loop s (cx + 1) 0 0"
      using "1.prems" cx2rx_loop_snoc [of 0 cx s 0] by simp
    show ?thesis
    proof (cases "cx = k")
      case True
      have "cx2rx_loop s k 0 0 < cx2rx_loop s (k + 1) 0 0"
        using "1.prems" True by (intro cx2rx_step) simp
      then show ?thesis
        using True inside next_col by (subst rx2cx_loop.simps) (simp add: Let_def)
    next
      case False
      with "1.prems" have le: "cx + 1 \<le> k" by simp
      have not_past: "\<not> cx2rx_loop s k 0 0 < cx2rx_loop s (cx + 1) 0 0"
        using cx2rx_mono [of "cx + 1" k s] le "1.prems" by simp
      have "rx2cx_loop s (cx2rx_loop s k 0 0) (cx + 1) (cx2rx_loop s (cx + 1) 0 0) = k"
        using "1.hyps" [OF inside next_col [symmetric]] not_past next_col le "1.prems"
        by simp
      then show ?thesis
        using inside next_col not_past by (subst rx2cx_loop.simps) (simp add: Let_def)
    qed
  qed
qed

text \<open>
  Claim C1. For every row and every raw index \<open>cx\<close> with \<open>0 \<le> cx \<le> len\<close>, mapping \<open>cx\<close>
  to its render index with \<open>editor_row_cx2rx\<close> and mapping that render index back with
  \<open>editor_row_rx2cx\<close> returns \<open>cx\<close>.
\<close>

theorem cx2rx_rx2cx_roundtrip:
  "0 \<le> cx \<Longrightarrow> cx \<le> len r \<Longrightarrow> editor_row_rx2cx r (editor_row_cx2rx r cx) = cx"
  unfolding editor_row_rx2cx_def editor_row_cx2rx_def len_def
  using rx2cx_loop_inverse [of 0 cx "chars r" 0]
  by (simp add: cx2rx_loop_done)

theorem cx2rx_rx2cx_roundtrip_witness:
  "(0::int) \<le> 2 \<and> 2 \<le> len \<lparr>idx = 0, chars = [CHR ''a'', TAB, CHR ''b''], render = [], hl = [],
       hl_open_comment = False\<rparr>
   \<and> editor_row_cx2rx \<lparr>idx = 0, chars = [CHR ''a'', TAB, CHR ''b''], render = [], hl = [],
       hl_open_comment = False\<rparr> 2 = 8
   \<and> editor_row_rx2cx \<lparr>idx = 0, chars = [CHR ''a'', TAB, CHR ''b''], render = [], hl = [],
       hl_open_comment = False\<rparr> 8 = 2"
proof -
  let ?r = "\<lparr>idx = 0, chars = [CHR ''a'', TAB, CHR ''b''], render = [], hl = [],
       hl_open_comment = False\<rparr>"
  have l: "len ?r = 3" by (simp add: len_def)
  have fwd: "editor_row_cx2rx ?r 2 = 8"
    by (simp add: editor_row_cx2rx_def cx2rx_loop.simps advance_rx_def byte_at_def
        TAB_def TAB_STOP_def)
  have "editor_row_rx2cx ?r (editor_row_cx2rx ?r 2) = 2"
    by (rule cx2rx_rx2cx_roundtrip) (simp_all add: l)
  then show ?thesis
    using l fwd by simp
qed

section \<open>Properties of the string functions\<close>

lemma strlen_Cons: "strlen (x # xs) = (if x = NUL then 0 else Suc (strlen xs))"
  by (simp add: strlen_def cstr_def)

lemma strlen_Nil: "strlen [] = 0"
  by (simp add: strlen_def cstr_def)

lemma strlen_le_length: "strlen s \<le> length s"
  by (simp add: strlen_def cstr_def length_takeWhile_le)

text \<open>A successful comparison over \<open>n\<close> bytes that lie inside the string \<open>b\<close> finds these
  \<open>n\<close> bytes in \<open>a\<close>.\<close>

lemma strncmp_eq_take:
  "strncmp_eq a b n \<Longrightarrow> n \<le> strlen b \<Longrightarrow> n \<le> length a \<and> take n a = take n b"
proof (induction n arbitrary: a b)
  case 0
  then show ?case by simp
next
  case (Suc n)
  from Suc.prems(2) obtain y b' where b: "b = y # b'" and y: "y \<noteq> NUL" and n: "n \<le> strlen b'"
    by (cases b) (auto simp: strlen_Cons strlen_Nil split: if_splits)
  from Suc.prems(1) b y obtain a' where a: "a = y # a'" and rest: "strncmp_eq a' b' n"
    by (cases a) (auto simp: first_byte_def split: if_splits)
  from Suc.IH [OF rest n] show ?case
    by (simp add: a b)
qed

lemma strncmp_eq_drop_bound:
  "strncmp_eq (drop i rnd) b n \<Longrightarrow> n \<le> strlen b \<Longrightarrow> i \<le> length rnd \<Longrightarrow> i + n \<le> length rnd"
proof -
  assume "strncmp_eq (drop i rnd) b n" "n \<le> strlen b" and i: "i \<le> length rnd"
  then have "n \<le> length (drop i rnd)"
    using strncmp_eq_take by blast
  with i show ?thesis by simp
qed

lemma length_memset: "i + n \<le> length a \<Longrightarrow> length (memset a i v n) = length a"
  by (simp add: memset_def)

lemma marker_len_le: "marker_len m \<le> strlen (marker_str m)"
  by (cases m) (simp_all add: marker_len_def marker_str_def)

section \<open>Properties of the scan\<close>

lemma match_keywords_bound:
  "match_keywords kws rnd i = Some (cls, klen) \<Longrightarrow> i \<le> length rnd \<Longrightarrow> i + klen \<le> length rnd"
proof (induction kws)
  case Nil
  then show ?case by simp
next
  case (Cons kw kws)
  show ?case
  proof (cases "match_keywords kws rnd i = Some (cls, klen)")
    case True
    with Cons show ?thesis by simp
  next
    case False
    with Cons.prems(1) have cmp: "strncmp_eq (drop i rnd) kw klen" and le: "klen \<le> strlen kw"
      by (auto simp: Let_def split: if_splits)
    then show ?thesis
      using Cons.prems(2) by (rule strncmp_eq_drop_bound)
  qed
qed

lemma scan_line_comment_length:
  "scan_line_comment syn rnd st = Some e \<Longrightarrow> pos st < length rnd \<Longrightarrow>
   length (hls st) = length rnd \<Longrightarrow> length (hls (exit_state e)) = length rnd"
  by (auto simp: scan_line_comment_def Let_def exit_state_def length_memset split: if_splits)

lemma scan_block_comment_length:
  assumes "scan_block_comment syn rnd st = Some e" "pos st < length rnd"
    "length (hls st) = length rnd"
  shows "length (hls (exit_state e)) = length rnd"
proof -
  have e: "strncmp_eq (drop (pos st) rnd) (marker_str (multiline_comment_end syn))
             (marker_len (multiline_comment_end syn)) \<Longrightarrow>
           pos st + marker_len (multiline_comment_end syn) \<le> length rnd"
    using assms(2) by (intro strncmp_eq_drop_bound [OF _ marker_len_le]) simp_all
  have s: "strncmp_eq (drop (pos st) rnd) (marker_str (multiline_comment_start syn))
             (marker_len (multiline_comment_start syn)) \<Longrightarrow>
           pos st + marker_len (multiline_comment_start syn) \<le> length rnd"
    using assms(2) by (intro strncmp_eq_drop_bound [OF _ marker_len_le]) simp_all
  show ?thesis
    using assms e s
    by (auto simp: scan_block_comment_def Let_def exit_state_def length_memset split: if_splits)
qed

lemma scan_string_length:
  "scan_string syn rnd st = Some e \<Longrightarrow> length (hls st) = length rnd \<Longrightarrow>
   length (hls (exit_state e)) = length rnd"
  by (auto simp: scan_string_def Let_def exit_state_def split: if_splits)

lemma scan_number_length:
  "scan_number syn rnd st = Some e \<Longrightarrow> length (hls st) = length rnd \<Longrightarrow>
   length (hls (exit_state e)) = length rnd"
  by (auto simp: scan_number_def Let_def exit_state_def split: if_splits)

lemma scan_keyword_length:
  "scan_keyword syn rnd st = Some e \<Longrightarrow> pos st < length rnd \<Longrightarrow>
   length (hls st) = length rnd \<Longrightarrow> length (hls (exit_state e)) = length rnd"
  by (auto simp: scan_keyword_def Let_def exit_state_def length_memset
      split: if_splits option.splits dest!: match_keywords_bound)

lemma scan_other_length:
  "length (hls st) = length rnd \<Longrightarrow> length (hls (exit_state (scan_other rnd st))) = length rnd"
  by (simp add: scan_other_def exit_state_def)

lemma scan_step_length:
  "pos st < length rnd \<Longrightarrow> length (hls st) = length rnd \<Longrightarrow>
   length (hls (exit_state (scan_step syn rnd st))) = length rnd"
  unfolding scan_step_def
  by (auto split: option.splits
      intro: scan_line_comment_length scan_block_comment_length scan_string_length
        scan_number_length scan_keyword_length scan_other_length)

text \<open>The scan writes inside the array: its length stays the length of the render text.\<close>

lemma scan_loop_length:
  "length (hls st) = length rnd \<Longrightarrow> length (hls (scan_loop syn rnd st)) = length rnd"
proof (induction syn rnd st rule: scan_loop.induct)
  case (1 syn rnd st)
  show ?case
  proof (cases "pos st < length rnd")
    case False
    then show ?thesis
      using "1.prems" by (subst scan_loop.simps) simp
  next
    case True
    have step: "length (hls (exit_state (scan_step syn rnd st))) = length rnd"
      using True "1.prems" by (rule scan_step_length)
    show ?thesis
    proof (cases "scan_step syn rnd st")
      case (Break st')
      then show ?thesis
        using True step by (subst scan_loop.simps) (simp add: exit_state_def)
    next
      case (Continue st')
      then have "length (hls (scan_loop syn rnd st')) = length rnd"
        using True step "1.IH" by (simp add: exit_state_def)
      then show ?thesis
        using True Continue by (subst scan_loop.simps) simp
    qed
  qed
qed

lemma scan_init_length: "length (hls (scan_init rnd ic)) = length rnd"
  by (simp add: scan_init_def)

lemma idx_ok_nth: "idx_ok rs \<Longrightarrow> j < length rs \<Longrightarrow> idx (rs ! j) = int j"
proof -
  assume a: "idx_ok rs" and j: "j < length rs"
  have "idx (rs ! j) = map idx rs ! j" using j by simp
  also have "\<dots> = map int [0 ..< length rs] ! j" using a by (simp add: idx_ok_def)
  also have "\<dots> = int j" using j by simp
  finally show ?thesis .
qed

lemma idx_ok_update:
  "idx_ok rs \<Longrightarrow> k < length rs \<Longrightarrow> idx r' = idx (rs ! k) \<Longrightarrow> idx_ok (rs[k := r'])"
proof -
  assume a: "idx_ok rs" and k: "k < length rs" and i: "idx r' = idx (rs ! k)"
  have "map idx (rs[k := r']) = (map idx rs)[k := idx (rs ! k)]"
    by (simp add: map_update i)
  also have "\<dots> = map idx rs"
    using k by (metis list_update_id nth_map)
  finally show ?thesis
    using a by (simp add: idx_ok_def)
qed

lemma rehighlighted_update:
  "k < length (row ec) \<Longrightarrow> same_text (row ec ! k) r' \<Longrightarrow> hl_sized r' \<Longrightarrow>
   rehighlighted k ec (ec\<lparr>row := (row ec)[k := r']\<rparr>)"
  by (auto simp: rehighlighted_def nth_list_update same_text_def)

lemma rehighlighted_trans:
  assumes "rehighlighted k ec ec1" "rehighlighted k' ec1 ec2" "k < k'" "k < length (row ec)"
  shows "rehighlighted k ec ec2"
proof -
  have len: "length (row ec1) = length (row ec)" "length (row ec2) = length (row ec)"
    using assms by (simp_all add: rehighlighted_def)
  have "ec1 = ec\<lparr>row := row ec1\<rparr>" "ec2 = ec1\<lparr>row := row ec2\<rparr>"
    using assms by (simp_all add: rehighlighted_def)
  then have "ec2 = ec\<lparr>row := row ec1\<rparr>\<lparr>row := row ec2\<rparr>" by simp
  then have frame: "ec2 = ec\<lparr>row := row ec2\<rparr>" by simp
  have rows: "same_text (row ec ! j) (row ec2 ! j)
        \<and> (j < k \<longrightarrow> row ec2 ! j = row ec ! j)
        \<and> (hl_sized (row ec ! j) \<longrightarrow> hl_sized (row ec2 ! j))" if "j < length (row ec)" for j
  proof -
    have a: "same_text (row ec ! j) (row ec1 ! j)" "j < k \<longrightarrow> row ec1 ! j = row ec ! j"
      "hl_sized (row ec ! j) \<longrightarrow> hl_sized (row ec1 ! j)"
      using assms(1) that by (simp_all add: rehighlighted_def)
    have b: "same_text (row ec1 ! j) (row ec2 ! j)" "j < k' \<longrightarrow> row ec2 ! j = row ec1 ! j"
      "hl_sized (row ec1 ! j) \<longrightarrow> hl_sized (row ec2 ! j)"
      using assms(2) that len by (simp_all add: rehighlighted_def)
    show ?thesis
      using a b assms(3) by (auto simp: same_text_def)
  qed
  have "hl_sized (row ec1 ! k)"
    using assms(1) by (simp add: rehighlighted_def)
  moreover have "row ec2 ! k = row ec1 ! k"
    using assms(2,3,4) len by (simp add: rehighlighted_def)
  ultimately have "hl_sized (row ec2 ! k)" by simp
  with frame len rows show ?thesis
    unfolding rehighlighted_def by blast
qed

lemma incoming_comment_Some:
  "idx_ok (row ec) \<Longrightarrow> k < length (row ec) \<Longrightarrow>
   incoming_comment ec (row ec ! k)
     = Some (0 < k \<and> hl_open_comment (row ec ! (k - 1)))"
  by (auto simp: incoming_comment_def row_at_def idx_ok_nth nat_diff_distrib)

text \<open>On a well-numbered document the update returns, changes nothing but highlight data
  of rows from \<open>k\<close> on, and leaves every row it touches with a highlight array of the
  length of its render text.\<close>

lemma editor_update_syntax_rehighlighted:
  "idx_ok (row ec) \<Longrightarrow> num_rows ec \<le> int (length (row ec)) \<Longrightarrow> k < length (row ec) \<Longrightarrow>
   \<exists>ec'. editor_update_syntax ec k = Some ec' \<and> rehighlighted k ec ec'"
proof (induction "length (row ec) - k" arbitrary: ec k rule: less_induct)
  case less
  let ?r = "row ec ! k"
  show ?case
  proof (cases "esyntax ec")
    case None
    have "editor_update_syntax ec k
          = Some (ec\<lparr>row := (row ec)[k := ?r\<lparr>hl := replicate (length (render ?r)) HL_NORMAL\<rparr>]\<rparr>)"
      using less.prems(3) None by (subst editor_update_syntax.simps) (simp add: Let_def)
    moreover have "rehighlighted k ec
        (ec\<lparr>row := (row ec)[k := ?r\<lparr>hl := replicate (length (render ?r)) HL_NORMAL\<rparr>]\<rparr>)"
      using less.prems(3) by (intro rehighlighted_update) (simp_all add: same_text_def hl_sized_def)
    ultimately show ?thesis by blast
  next
    case (Some syn)
    define ic where "ic = (0 < k \<and> hl_open_comment (row ec ! (k - 1)))"
    define st where "st = scan_loop syn (render ?r) (scan_init (render ?r) ic)"
    define r' where "r' = ?r\<lparr>hl := hls st, hl_open_comment := in_comment st\<rparr>"
    define ec1 where "ec1 = ec\<lparr>row := (row ec)[k := r']\<rparr>"
    have ic: "incoming_comment ec ?r = Some ic"
      using less.prems by (simp add: incoming_comment_Some ic_def)
    have idx: "idx ?r = int k"
      using less.prems by (simp add: idx_ok_nth)
    have sized: "length (hls st) = length (render ?r)"
      unfolding st_def by (rule scan_loop_length) (rule scan_init_length)
    have re1: "rehighlighted k ec ec1"
      unfolding ec1_def using less.prems(3) sized
      by (intro rehighlighted_update) (simp_all add: same_text_def hl_sized_def r'_def)
    show ?thesis
    proof (cases "hl_open_comment ?r \<noteq> in_comment st \<and> int k + 1 < num_rows ec")
      case False
      have "editor_update_syntax ec k = Some ec1"
        using less.prems(3) Some ic idx False
        by (subst editor_update_syntax.simps)
           (auto simp add: Let_def st_def [symmetric] r'_def ec1_def)
      with re1 show ?thesis by blast
    next
      case True
      then have k1: "Suc k < length (row ec)"
        using less.prems(2) by simp
      have unfold: "editor_update_syntax ec k = editor_update_syntax ec1 (Suc k)"
        using less.prems(3) Some ic idx True k1
        by (subst editor_update_syntax.simps)
           (auto simp add: Let_def st_def [symmetric] r'_def ec1_def nat_add_distrib)
      have ok1: "idx_ok (row ec1)"
        unfolding ec1_def using less.prems by (simp add: idx_ok_update r'_def)
      have len1: "length (row ec1) = length (row ec)" "num_rows ec1 = num_rows ec"
        by (simp_all add: ec1_def)
      have "\<exists>ec'. editor_update_syntax ec1 (Suc k) = Some ec' \<and> rehighlighted (Suc k) ec1 ec'"
        using less.prems(2) k1 ok1 len1 by (intro less.hyps) simp_all
      then obtain ec2 where ec2: "editor_update_syntax ec1 (Suc k) = Some ec2"
        and re2: "rehighlighted (Suc k) ec1 ec2" by blast
      have "rehighlighted k ec ec2"
        using rehighlighted_trans [OF re1 re2] less.prems(3) by simp
      with unfold ec2 show ?thesis by simp
    qed
  qed
qed

lemma length_pad_tab: "length rnd \<le> length (pad_tab rnd)"
proof (induction rnd rule: pad_tab.induct)
  case (1 rnd)
  show ?case
  proof (cases "int (length rnd) mod TAB_STOP \<noteq> 0")
    case True
    with 1 have "length (rnd @ [SPACE]) \<le> length (pad_tab (rnd @ [SPACE]))" by simp
    then show ?thesis
      using True by (subst pad_tab.simps) simp
  next
    case False
    then show ?thesis by (subst pad_tab.simps) simp
  qed
qed

text \<open>Every raw byte gives at least one byte of render text.\<close>

lemma length_render_loop: "length rnd + length cs \<le> length (render_loop cs rnd)"
proof (induction cs arbitrary: rnd)
  case Nil
  then show ?case by simp
next
  case (Cons ch cs)
  show ?case
  proof (cases "ch = TAB")
    case True
    have "length (rnd @ [SPACE]) \<le> length (pad_tab (rnd @ [SPACE]))"
      by (rule length_pad_tab)
    moreover have "length (pad_tab (rnd @ [SPACE])) + length cs
        \<le> length (render_loop cs (pad_tab (rnd @ [SPACE])))"
      by (rule Cons.IH)
    ultimately show ?thesis using True by simp
  next
    case False
    with Cons.IH [of "rnd @ [ch]"] show ?thesis by simp
  qed
qed

lemma editor_update_row_updated:
  assumes "idx_ok (row ec)" "num_rows ec \<le> int (length (row ec))" "k < length (row ec)"
  shows "\<exists>ec'. editor_update_row ec k = Some ec' \<and> row_updated k ec ec'"
proof -
  define r0 where "r0 = (row ec ! k)\<lparr>render := render_loop (chars (row ec ! k)) []\<rparr>"
  define ec0 where "ec0 = ec\<lparr>row := (row ec)[k := r0]\<rparr>"
  have ok0: "idx_ok (row ec0)"
    unfolding ec0_def using assms by (simp add: idx_ok_update r0_def)
  have len0: "length (row ec0) = length (row ec)" "num_rows ec0 = num_rows ec"
    by (simp_all add: ec0_def)
  have "\<exists>ec'. editor_update_syntax ec0 k = Some ec' \<and> rehighlighted k ec0 ec'"
    using ok0 len0 assms by (intro editor_update_syntax_rehighlighted) simp_all
  then obtain ec' where run: "editor_update_syntax ec0 k = Some ec'"
    and re: "rehighlighted k ec0 ec'" by blast
  have call: "editor_update_row ec k = Some ec'"
    using assms(3) run by (simp add: editor_update_row_def Let_def ec0_def r0_def)
  have frame: "ec' = ec\<lparr>row := row ec'\<rparr>"
  proof -
    have "ec' = ec0\<lparr>row := row ec'\<rparr>" using re by (simp add: rehighlighted_def)
    then show ?thesis by (simp add: ec0_def)
  qed
  have len: "length (row ec') = length (row ec)"
    using re len0 by (simp add: rehighlighted_def)
  have rows: "idx (row ec' ! j) = idx (row ec ! j)
        \<and> chars (row ec' ! j) = chars (row ec ! j)
        \<and> (j < k \<longrightarrow> row ec' ! j = row ec ! j)
        \<and> (j \<noteq> k \<longrightarrow> row_inv (row ec ! j) \<longrightarrow> row_inv (row ec' ! j))"
    if j: "j < length (row ec)" for j
  proof -
    have a: "same_text (row ec0 ! j) (row ec' ! j)" "j < k \<longrightarrow> row ec' ! j = row ec0 ! j"
      "hl_sized (row ec0 ! j) \<longrightarrow> hl_sized (row ec' ! j)"
      using re j len0 by (simp_all add: rehighlighted_def)
    have b: "j \<noteq> k \<Longrightarrow> row ec0 ! j = row ec ! j"
      by (simp add: ec0_def)
    have c: "idx (row ec0 ! j) = idx (row ec ! j)" "chars (row ec0 ! j) = chars (row ec ! j)"
      using j assms(3) by (simp_all add: ec0_def r0_def nth_list_update)
    show ?thesis
      using a b c by (auto simp: same_text_def row_inv_def hl_sized_def)
  qed
  have k0: "row ec0 ! k = r0"
    using assms(3) by (simp add: ec0_def)
  have st: "same_text r0 (row ec' ! k)" "hl_sized (row ec' ! k)"
    using re assms(3) len0 k0 by (auto simp: rehighlighted_def)
  have rk: "render (row ec' ! k) = render_loop (chars (row ec ! k)) []"
    using st by (simp add: same_text_def r0_def)
  have "length (chars (row ec ! k)) \<le> length (render_loop (chars (row ec ! k)) [])"
    using length_render_loop [of "[]" "chars (row ec ! k)"] by simp
  then have "row_inv (row ec' ! k)"
    using st rk by (simp add: row_inv_def hl_sized_def same_text_def r0_def)
  with call frame len rows rk show ?thesis
    unfolding row_updated_def by blast
qed

lemma row_updated_fields:
  "row_updated k ec ec' \<Longrightarrow>
   cursor_x ec' = cursor_x ec \<and> cursor_y ec' = cursor_y ec \<and> num_rows ec' = num_rows ec
   \<and> dirty ec' = dirty ec \<and> filename ec' = filename ec \<and> esyntax ec' = esyntax ec
   \<and> row_off ec' = row_off ec \<and> clo_off ec' = clo_off ec
   \<and> length (row ec') = length (row ec)"
proof -
  assume "row_updated k ec ec'"
  then have "ec' = ec\<lparr>row := row ec'\<rparr>" "length (row ec') = length (row ec)"
    by (simp_all add: row_updated_def)
  then show ?thesis
    by (metis editor_config.select_convs(1-6,8,9) editor_config.surjective
        editor_config.update_convs(7))
qed

lemma row_updated_chars:
  "row_updated k ec ec' \<Longrightarrow> map chars (row ec') = map chars (row ec)"
  by (rule nth_equalityI) (simp_all add: row_updated_def)

lemma row_updated_idx_ok:
  "row_updated k ec ec' \<Longrightarrow> idx_ok (row ec) \<Longrightarrow> idx_ok (row ec')"
proof -
  assume u: "row_updated k ec ec'" and ok: "idx_ok (row ec)"
  have "map idx (row ec') = map idx (row ec)"
    using u by (intro nth_equalityI) (simp_all add: row_updated_def)
  with ok u show ?thesis
    by (simp add: idx_ok_def row_updated_def)
qed

lemma row_updated_inv:
  assumes "row_updated k ec ec'" "k < length (row ec)"
    "\<And>j. j < length (row ec) \<Longrightarrow> j \<noteq> k \<Longrightarrow> row_inv (row ec ! j)"
  shows "list_all row_inv (row ec')"
  unfolding list_all_length
proof (intro allI impI)
  fix j assume "j < length (row ec')"
  then have j: "j < length (row ec)" using assms(1) by (simp add: row_updated_def)
  show "row_inv (row ec' ! j)"
  proof (cases "j = k")
    case True
    then show ?thesis using assms(1) by (simp add: row_updated_def)
  next
    case False
    then show ?thesis using assms(1,3) j by (simp add: row_updated_def)
  qed
qed

lemma idx_ok_iff: "idx_ok rs = (\<forall>j < length rs. idx (rs ! j) = int j)"
proof
  assume "idx_ok rs"
  then show "\<forall>j < length rs. idx (rs ! j) = int j"
    by (simp add: idx_ok_nth)
next
  assume a: "\<forall>j < length rs. idx (rs ! j) = int j"
  have "map idx rs = map int [0 ..< length rs]"
    by (rule nth_equalityI) (simp_all add: a)
  then show "idx_ok rs"
    by (simp add: idx_ok_def)
qed

lemma nth_insert_row:
  assumes "a \<le> length rs"
  shows "j < a \<Longrightarrow> (take a rs @ [new] @ map f (drop a rs)) ! j = rs ! j"
    and "(take a rs @ [new] @ map f (drop a rs)) ! a = new"
    and "a + d < length rs \<Longrightarrow> (take a rs @ [new] @ map f (drop a rs)) ! (a + Suc d) = f (rs ! (a + d))"
proof -
  have l: "length (take a rs) = a" using assms by simp
  show "j < a \<Longrightarrow> (take a rs @ [new] @ map f (drop a rs)) ! j = rs ! j"
    by (simp only: nth_append l if_True nth_take)
  show "(take a rs @ [new] @ map f (drop a rs)) ! a = new"
    using nth_append_length [of "take a rs" new "map f (drop a rs)"] by (simp only: l append_Cons append_Nil)
  assume d: "a + d < length rs"
  have "(take a rs @ [new] @ map f (drop a rs)) ! (length (take a rs) + Suc d) = ([new] @ map f (drop a rs)) ! Suc d"
    by (rule nth_append_length_plus)
  also have "\<dots> = map f (drop a rs) ! d" by simp
  also have "\<dots> = f (rs ! (a + d))" using d by simp
  finally show "(take a rs @ [new] @ map f (drop a rs)) ! (a + Suc d) = f (rs ! (a + d))"
    by (simp only: l)
qed

lemma nth_delete_row:
  assumes "a < length rs"
  shows "j < a \<Longrightarrow> (take a rs @ map f (drop (Suc a) rs)) ! j = rs ! j"
    and "Suc (a + d) < length rs \<Longrightarrow> (take a rs @ map f (drop (Suc a) rs)) ! (a + d) = f (rs ! Suc (a + d))"
proof -
  have l: "length (take a rs) = a" using assms by simp
  show "j < a \<Longrightarrow> (take a rs @ map f (drop (Suc a) rs)) ! j = rs ! j"
    by (simp only: nth_append l if_True nth_take)
  assume d: "Suc (a + d) < length rs"
  have "(take a rs @ map f (drop (Suc a) rs)) ! (length (take a rs) + d) = map f (drop (Suc a) rs) ! d"
    by (rule nth_append_length_plus)
  also have "\<dots> = f (rs ! Suc (a + d))" using d by simp
  finally show "(take a rs @ map f (drop (Suc a) rs)) ! (a + d) = f (rs ! Suc (a + d))"
    by (simp only: l)
qed

lemma idx_ok_insert:
  assumes "idx_ok rs" "a \<le> length rs" "idx new = int a"
  shows "idx_ok (take a rs @ [new] @ map (\<lambda>r. r\<lparr>idx := idx r + 1\<rparr>) (drop a rs))"
    (is "idx_ok ?rs'")
proof -
  have "idx (?rs' ! j) = int j" if j: "j < length ?rs'" for j
  proof -
    consider "j < a" | "j = a" | "a < j" by linarith
    then show ?thesis
    proof cases
      case 1
      then have "?rs' ! j = rs ! j" using assms(2) by (simp only: nth_insert_row)
      moreover have "j < length rs" using 1 assms(2) by simp
      ultimately show ?thesis using assms(1) by (simp only: idx_ok_nth)
    next
      case 2
      then show ?thesis using assms(2,3) by (simp only: nth_insert_row)
    next
      case 3
      then obtain d where d: "j = a + Suc d"
        using less_imp_Suc_add [of a j] by auto
      have len: "length ?rs' = Suc (length rs)" using assms(2) by simp
      have ad: "a + d < length rs" using j d len by linarith
      have "?rs' ! (a + Suc d) = (rs ! (a + d))\<lparr>idx := idx (rs ! (a + d)) + 1\<rparr>"
        using assms(2) ad by (rule nth_insert_row(3))
      then have "idx (?rs' ! (a + Suc d)) = idx (rs ! (a + d)) + 1"
        by simp
      then have "idx (?rs' ! j) = idx (rs ! (a + d)) + 1"
        by (simp only: d)
      also have "\<dots> = int (a + d) + 1" using assms(1) ad by (simp only: idx_ok_nth)
      finally show ?thesis using d by simp
    qed
  qed
  then show ?thesis by (simp only: idx_ok_iff) blast
qed

lemma idx_ok_delete:
  assumes "idx_ok rs" "a < length rs"
  shows "idx_ok (take a rs @ map (\<lambda>r. r\<lparr>idx := idx r - 1\<rparr>) (drop (Suc a) rs))"
    (is "idx_ok ?rs'")
proof -
  have "idx (?rs' ! j) = int j" if j: "j < length ?rs'" for j
  proof (cases "j < a")
    case True
    then have "?rs' ! j = rs ! j" using assms(2) by (simp only: nth_delete_row)
    moreover have "j < length rs" using True assms(2) by simp
    ultimately show ?thesis using assms(1) by (simp only: idx_ok_nth)
  next
    case False
    then obtain d where d: "j = a + d"
      using le_Suc_ex [of a j] by auto
    have len: "length ?rs' = length rs - 1" using assms(2) by simp
    have ad: "Suc (a + d) < length rs" using j d len by linarith
    have "?rs' ! (a + d) = (rs ! Suc (a + d))\<lparr>idx := idx (rs ! Suc (a + d)) - 1\<rparr>"
      using assms(2) ad by (rule nth_delete_row(2))
    then have "idx (?rs' ! (a + d)) = idx (rs ! Suc (a + d)) - 1"
      by simp
    then have "idx (?rs' ! j) = idx (rs ! Suc (a + d)) - 1"
      by (simp only: d)
    also have "\<dots> = int (Suc (a + d)) - 1" using assms(1) ad by (simp only: idx_ok_nth)
    finally show ?thesis using d by simp
  qed
  then show ?thesis by (simp only: idx_ok_iff) blast
qed

lemma row_inv_idx_update [simp]: "row_inv (r\<lparr>idx := v\<rparr>) = row_inv r"
  by (simp add: row_inv_def)

text \<open>Changing the raw bytes of row \<open>k\<close> and updating the row.\<close>

lemma update_row_after_edit:
  assumes "doc_wf ec" "k < length (row ec)"
  shows "\<exists>ec'. editor_update_row (ec\<lparr>row := (row ec)[k := (row ec ! k)\<lparr>chars := cs\<rparr>]\<rparr>) k = Some ec'
     \<and> doc_wf ec' \<and> frame_eq ec ec' \<and> dirty ec' = dirty ec \<and> num_rows ec' = num_rows ec
     \<and> map chars (row ec') = (map chars (row ec))[k := cs]
     \<and> (list_all row_inv (row ec) \<longrightarrow> list_all row_inv (row ec'))"
proof -
  define ec0 where "ec0 = ec\<lparr>row := (row ec)[k := (row ec ! k)\<lparr>chars := cs\<rparr>]\<rparr>"
  have ok0: "idx_ok (row ec0)"
    unfolding ec0_def using assms by (simp add: idx_ok_update doc_wf_def)
  have len0: "length (row ec0) = length (row ec)" "num_rows ec0 = num_rows ec"
    by (simp_all add: ec0_def)
  have "\<exists>ec'. editor_update_row ec0 k = Some ec' \<and> row_updated k ec0 ec'"
    using ok0 len0 assms by (intro editor_update_row_updated) (simp_all add: doc_wf_def)
  then obtain ec' where run: "editor_update_row ec0 k = Some ec'"
    and up: "row_updated k ec0 ec'" by blast
  note f = row_updated_fields [OF up]
  have wf: "doc_wf ec'"
    using f row_updated_idx_ok [OF up ok0] assms(1) len0 by (simp add: doc_wf_def)
  have fr: "frame_eq ec ec'" "dirty ec' = dirty ec" "num_rows ec' = num_rows ec"
    using f by (simp_all add: frame_eq_def ec0_def)
  have ch: "map chars (row ec') = (map chars (row ec))[k := cs]"
    using row_updated_chars [OF up] by (simp add: ec0_def map_update)
  have inv: "list_all row_inv (row ec')" if "list_all row_inv (row ec)"
  proof (rule row_updated_inv [OF up])
    show "k < length (row ec0)" using assms(2) len0 by simp
  next
    fix j assume "j < length (row ec0)" "j \<noteq> k"
    then show "row_inv (row ec0 ! j)"
      using that by (simp add: ec0_def list_all_length)
  qed
  show ?thesis
    using run wf fr ch inv unfolding ec0_def by blast
qed

lemma editor_insert_row_result:
  assumes "doc_wf ec" "0 \<le> at" "at \<le> num_rows ec"
  shows "\<exists>ec'. editor_insert_row ec at s = Some ec'
     \<and> doc_wf ec' \<and> frame_eq ec ec' \<and> dirty ec' = wrap_int (dirty ec + 1)
     \<and> num_rows ec' = num_rows ec + 1
     \<and> map chars (row ec')
         = take (nat at) (map chars (row ec)) @ [s] @ drop (nat at) (map chars (row ec))
     \<and> (list_all row_inv (row ec) \<longrightarrow> list_all row_inv (row ec'))"
proof -
  define a where "a = nat at"
  define new where "new = \<lparr>idx = at, chars = s, render = [], hl = [], hl_open_comment = False\<rparr>"
  define rows1 where
    "rows1 = take a (row ec) @ [new] @ map (\<lambda>r. r\<lparr>idx := idx r + 1\<rparr>) (drop a (row ec))"
  define ec1 where "ec1 = ec\<lparr>row := rows1\<rparr>"
  have n: "num_rows ec = int (length (row ec))" and ok: "idx_ok (row ec)"
    using assms(1) by (simp_all add: doc_wf_def)
  have a: "a \<le> length (row ec)" "int a = at"
    using assms n by (simp_all add: a_def)
  have old: "take (nat (num_rows ec)) (row ec) = row ec"
    by (simp add: n)
  have ok1: "idx_ok (row ec1)"
  proof -
    have "idx new = int a" using a by (simp add: new_def)
    with ok a(1) have "idx_ok rows1"
      unfolding rows1_def by (rule idx_ok_insert)
    then show ?thesis by (simp add: ec1_def)
  qed
  have len1: "length (row ec1) = Suc (length (row ec))" "num_rows ec1 = num_rows ec"
    using a by (simp_all add: ec1_def rows1_def)
  have "\<exists>ec'. editor_update_row ec1 a = Some ec' \<and> row_updated a ec1 ec'"
    using ok1 len1 a n by (intro editor_update_row_updated) simp_all
  then obtain ec2 where run: "editor_update_row ec1 a = Some ec2"
    and up: "row_updated a ec1 ec2" by blast
  note f = row_updated_fields [OF up]
  define ec' where "ec' = ec2\<lparr>num_rows := num_rows ec2 + 1, dirty := wrap_int (dirty ec2 + 1)\<rparr>"
  have call: "editor_insert_row ec at s = Some ec'"
    using assms(2,3) run
    by (simp add: editor_insert_row_def Let_def old ec1_def rows1_def new_def a_def ec'_def)
  have wf: "doc_wf ec'"
    using f row_updated_idx_ok [OF up ok1] len1 n by (simp add: doc_wf_def ec'_def)
  have fr: "frame_eq ec ec'" "dirty ec' = wrap_int (dirty ec + 1)" "num_rows ec' = num_rows ec + 1"
    using f by (simp_all add: frame_eq_def ec'_def ec1_def)
  have ch: "map chars (row ec')
      = take (nat at) (map chars (row ec)) @ [s] @ drop (nat at) (map chars (row ec))"
    using row_updated_chars [OF up]
    by (simp add: ec'_def ec1_def rows1_def new_def a_def take_map drop_map comp_def)
  have inv: "list_all row_inv (row ec')" if all: "list_all row_inv (row ec)"
  proof -
    have "list_all row_inv (row ec2)"
    proof (rule row_updated_inv [OF up])
      show "a < length (row ec1)" using a len1 by simp
    next
      fix j assume j: "j < length (row ec1)" "j \<noteq> a"
      show "row_inv (row ec1 ! j)"
      proof (cases "j < a")
        case True
        have "rows1 ! j = row ec ! j"
          unfolding rows1_def using a(1) True by (rule nth_insert_row(1))
        then have "row ec1 ! j = row ec ! j"
          by (simp add: ec1_def)
        moreover have "j < length (row ec)" using True a(1) by simp
        ultimately show ?thesis using all by (simp add: list_all_length)
      next
        case False
        with j have "a < j" by simp
        then obtain d where d: "j = a + Suc d"
          using less_imp_Suc_add [of a j] by auto
        with j len1 have ad: "a + d < length (row ec)" by simp
        have "rows1 ! (a + Suc d)
            = (row ec ! (a + d))\<lparr>idx := idx (row ec ! (a + d)) + 1\<rparr>"
          unfolding rows1_def using a(1) ad by (rule nth_insert_row(3))
        then show ?thesis
          using all ad by (simp add: ec1_def d list_all_length)
      qed
    qed
    then show ?thesis by (simp add: ec'_def)
  qed
  show ?thesis
    using call wf fr ch inv by blast
qed

lemma editor_del_row_result:
  assumes "doc_wf ec" "0 \<le> at" "at < num_rows ec"
  shows "doc_wf (editor_del_row ec at) \<and> frame_eq ec (editor_del_row ec at)
     \<and> dirty (editor_del_row ec at) = wrap_int (dirty ec + 1)
     \<and> num_rows (editor_del_row ec at) = num_rows ec - 1
     \<and> map chars (row (editor_del_row ec at))
         = take (nat at) (map chars (row ec)) @ drop (Suc (nat at)) (map chars (row ec))
     \<and> (list_all row_inv (row ec) \<longrightarrow> list_all row_inv (row (editor_del_row ec at)))"
proof -
  have n: "num_rows ec = int (length (row ec))" and ok: "idx_ok (row ec)"
    using assms(1) by (simp_all add: doc_wf_def)
  have a: "nat at < length (row ec)"
    using assms n by simp
  have eq: "editor_del_row ec at
      = ec\<lparr>row := take (nat at) (row ec) @ map (\<lambda>r. r\<lparr>idx := idx r - 1\<rparr>) (drop (Suc (nat at)) (row ec)),
           num_rows := num_rows ec - 1, dirty := wrap_int (dirty ec + 1)\<rparr>"
    using assms(2,3) by (simp add: editor_del_row_def Let_def n)
  have "idx_ok (take (nat at) (row ec) @ map (\<lambda>r. r\<lparr>idx := idx r - 1\<rparr>) (drop (Suc (nat at)) (row ec)))"
    using ok a by (rule idx_ok_delete)
  then have wf: "doc_wf (editor_del_row ec at)"
    using a n by (simp add: eq doc_wf_def)
  have inv: "list_all row_inv (row ec) \<longrightarrow> list_all row_inv (row (editor_del_row ec at))"
    by (auto simp: eq list_all_iff dest: in_set_takeD in_set_dropD)
  show ?thesis
    using wf inv by (simp add: eq frame_eq_def take_map drop_map comp_def)
qed

section \<open>Results of the row operations\<close>

lemma editor_row_insert_char_result:
  assumes "doc_wf ec" "k < length (row ec)"
  shows "\<exists>ec'. editor_row_insert_char ec k at c = Some ec'
     \<and> doc_wf ec' \<and> frame_eq ec ec' \<and> dirty ec' = wrap_int (dirty ec + 1) \<and> num_rows ec' = num_rows ec
     \<and> map chars (row ec')
         = (map chars (row ec))
             [k := take (nat (if at < 0 \<or> at > len (row ec ! k) then len (row ec ! k) else at))
                     (chars (row ec ! k))
                   @ [char_of c]
                   @ drop (nat (if at < 0 \<or> at > len (row ec ! k) then len (row ec ! k) else at))
                       (chars (row ec ! k))]
     \<and> (list_all row_inv (row ec) \<longrightarrow> list_all row_inv (row ec'))"
proof -
  define cs where "cs = take (nat (if at < 0 \<or> at > len (row ec ! k) then len (row ec ! k) else at))
                     (chars (row ec ! k))
                   @ [char_of c]
                   @ drop (nat (if at < 0 \<or> at > len (row ec ! k) then len (row ec ! k) else at))
                       (chars (row ec ! k))"
  obtain ec2 where run: "editor_update_row (ec\<lparr>row := (row ec)[k := (row ec ! k)\<lparr>chars := cs\<rparr>]\<rparr>) k = Some ec2"
    and r: "doc_wf ec2" "frame_eq ec ec2" "dirty ec2 = dirty ec" "num_rows ec2 = num_rows ec"
      "map chars (row ec2) = (map chars (row ec))[k := cs]"
      "list_all row_inv (row ec) \<longrightarrow> list_all row_inv (row ec2)"
    using update_row_after_edit [OF assms, of cs] by blast
  have "editor_row_insert_char ec k at c = Some (ec2\<lparr>dirty := wrap_int (dirty ec2 + 1)\<rparr>)"
    using assms(2) run by (simp add: editor_row_insert_char_def Let_def cs_def)
  moreover have "doc_wf (ec2\<lparr>dirty := wrap_int (dirty ec2 + 1)\<rparr>)"
    using r(1) by (simp add: doc_wf_def)
  moreover have "frame_eq ec (ec2\<lparr>dirty := wrap_int (dirty ec2 + 1)\<rparr>)"
    using r(2) by (simp add: frame_eq_def)
  ultimately show ?thesis
    using r(3-6) unfolding cs_def by auto
qed

lemma editor_row_append_str_result:
  assumes "doc_wf ec" "k < length (row ec)"
  shows "\<exists>ec'. editor_row_append_str ec k s = Some ec'
     \<and> doc_wf ec' \<and> frame_eq ec ec' \<and> dirty ec' = wrap_int (dirty ec + 1) \<and> num_rows ec' = num_rows ec
     \<and> map chars (row ec') = (map chars (row ec))[k := chars (row ec ! k) @ s]
     \<and> (list_all row_inv (row ec) \<longrightarrow> list_all row_inv (row ec'))"
proof -
  obtain ec2 where run: "editor_update_row
        (ec\<lparr>row := (row ec)[k := (row ec ! k)\<lparr>chars := chars (row ec ! k) @ s\<rparr>]\<rparr>) k = Some ec2"
    and r: "doc_wf ec2" "frame_eq ec ec2" "dirty ec2 = dirty ec" "num_rows ec2 = num_rows ec"
      "map chars (row ec2) = (map chars (row ec))[k := chars (row ec ! k) @ s]"
      "list_all row_inv (row ec) \<longrightarrow> list_all row_inv (row ec2)"
    using update_row_after_edit [OF assms, of "chars (row ec ! k) @ s"] by blast
  have "editor_row_append_str ec k s = Some (ec2\<lparr>dirty := wrap_int (dirty ec2 + 1)\<rparr>)"
    using assms(2) run by (simp add: editor_row_append_str_def Let_def)
  moreover have "doc_wf (ec2\<lparr>dirty := wrap_int (dirty ec2 + 1)\<rparr>)"
    using r(1) by (simp add: doc_wf_def)
  moreover have "frame_eq ec (ec2\<lparr>dirty := wrap_int (dirty ec2 + 1)\<rparr>)"
    using r(2) by (simp add: frame_eq_def)
  ultimately show ?thesis
    using r(3-6) by auto
qed

lemma editor_row_del_char_result:
  assumes "doc_wf ec" "k < length (row ec)" "0 \<le> at" "at < len (row ec ! k)"
  shows "\<exists>ec'. editor_row_del_char ec k at = Some ec'
     \<and> doc_wf ec' \<and> frame_eq ec ec' \<and> dirty ec' = wrap_int (dirty ec + 1) \<and> num_rows ec' = num_rows ec
     \<and> map chars (row ec')
         = (map chars (row ec))
             [k := take (nat at) (chars (row ec ! k)) @ drop (nat at + 1) (chars (row ec ! k))]
     \<and> (list_all row_inv (row ec) \<longrightarrow> list_all row_inv (row ec'))"
proof -
  define cs where "cs = take (nat at) (chars (row ec ! k)) @ drop (nat at + 1) (chars (row ec ! k))"
  obtain ec2 where run: "editor_update_row (ec\<lparr>row := (row ec)[k := (row ec ! k)\<lparr>chars := cs\<rparr>]\<rparr>) k = Some ec2"
    and r: "doc_wf ec2" "frame_eq ec ec2" "dirty ec2 = dirty ec" "num_rows ec2 = num_rows ec"
      "map chars (row ec2) = (map chars (row ec))[k := cs]"
      "list_all row_inv (row ec) \<longrightarrow> list_all row_inv (row ec2)"
    using update_row_after_edit [OF assms(1,2), of cs] by blast
  have "editor_row_del_char ec k at = Some (ec2\<lparr>dirty := wrap_int (dirty ec2 + 1)\<rparr>)"
    using assms(2-4) run by (simp add: editor_row_del_char_def Let_def cs_def)
  moreover have "doc_wf (ec2\<lparr>dirty := wrap_int (dirty ec2 + 1)\<rparr>)"
    using r(1) by (simp add: doc_wf_def)
  moreover have "frame_eq ec (ec2\<lparr>dirty := wrap_int (dirty ec2 + 1)\<rparr>)"
    using r(2) by (simp add: frame_eq_def)
  ultimately show ?thesis
    using r(3-6) unfolding cs_def by auto
qed

lemma row_ptr_Some:
  "0 \<le> y \<Longrightarrow> y < int (length (row ec)) \<Longrightarrow> row_ptr ec y = Some (nat y)"
  by (simp add: row_ptr_def)

lemma row_at_in_range:
  "0 \<le> y \<Longrightarrow> y < int (length (row ec)) \<Longrightarrow> row_at ec y = Some (row ec ! nat y)"
  by (simp add: row_at_def)

lemma split_row_chars:
  assumes "k < length cs"
  shows "(take (Suc k) cs @ [b] @ drop (Suc k) cs)[k := a]
     = take k cs @ [a, b] @ drop (Suc k) cs"
proof -
  have "take (Suc k) cs = take k cs @ [cs ! k]"
    using assms by (rule take_Suc_conv_app_nth)
  moreover have "length (take k cs) = k"
    using assms by simp
  ultimately show ?thesis
    using list_update_length [of "take k cs" "cs ! k" "[b] @ drop (Suc k) cs" a] by simp
qed

lemma nth_split_row_chars:
  assumes "k < length cs"
  shows "(take (Suc k) cs @ [b] @ drop (Suc k) cs) ! k = cs ! k"
  using assms by (simp add: nth_append)

text \<open>\<^verbatim>\<open>editor_insert_newline\<close> with the cursor on the document: at column 0 an empty row
  is inserted in front of the cursor row, otherwise the cursor row is split at the
  cursor.\<close>

lemma editor_insert_newline_result:
  assumes "doc_wf ec" "0 \<le> cursor_y ec" "cursor_y ec \<le> num_rows ec"
    "cursor_x ec = 0
     \<or> (cursor_y ec < num_rows ec \<and> 0 \<le> cursor_x ec
        \<and> cursor_x ec \<le> len (row ec ! nat (cursor_y ec)))"
  shows "\<exists>ec'. editor_insert_newline ec = Some ec'
     \<and> doc_wf ec' \<and> dirty ec' = wrap_int (dirty ec + 1) \<and> num_rows ec' = num_rows ec + 1
     \<and> cursor_y ec' = cursor_y ec + 1 \<and> cursor_x ec' = 0
     \<and> map chars (row ec')
         = (if cursor_x ec = 0
            then take (nat (cursor_y ec)) (map chars (row ec)) @ [[]]
                 @ drop (nat (cursor_y ec)) (map chars (row ec))
            else take (nat (cursor_y ec)) (map chars (row ec))
                 @ [take (nat (cursor_x ec)) (chars (row ec ! nat (cursor_y ec))),
                    drop (nat (cursor_x ec)) (chars (row ec ! nat (cursor_y ec)))]
                 @ drop (Suc (nat (cursor_y ec))) (map chars (row ec)))
     \<and> (list_all row_inv (row ec) \<longrightarrow> list_all row_inv (row ec'))"
proof (cases "cursor_x ec = 0")
  case True
  obtain ec1 where ins: "editor_insert_row ec (cursor_y ec) [] = Some ec1"
    and r: "doc_wf ec1" "frame_eq ec ec1" "dirty ec1 = wrap_int (dirty ec + 1)"
      "num_rows ec1 = num_rows ec + 1"
      "map chars (row ec1) = take (nat (cursor_y ec)) (map chars (row ec)) @ [[]]
                @ drop (nat (cursor_y ec)) (map chars (row ec))"
      "list_all row_inv (row ec) \<longrightarrow> list_all row_inv (row ec1)"
    using editor_insert_row_result [OF assms(1-3), of "[]"] by blast
  have "editor_insert_newline ec = Some (ec1\<lparr>cursor_y := cursor_y ec1 + 1, cursor_x := 0\<rparr>)"
    using True ins by (simp add: editor_insert_newline_def)
  moreover have "doc_wf (ec1\<lparr>cursor_y := cursor_y ec1 + 1, cursor_x := 0\<rparr>)"
    using r(1) by (simp add: doc_wf_def)
  moreover have "cursor_y ec1 = cursor_y ec"
    using r(2) by (simp add: frame_eq_def)
  ultimately show ?thesis
    using True r(3-6) by simp
next
  case False
  define k where "k = nat (cursor_y ec)"
  define cx where "cx = nat (cursor_x ec)"
  define crs where "crs = chars (row ec ! k)"
  have n: "num_rows ec = int (length (row ec))"
    using assms(1) by (simp add: doc_wf_def)
  have cur: "cursor_y ec < num_rows ec" "0 \<le> cursor_x ec" "cursor_x ec \<le> len (row ec ! k)"
    using assms(4) False by (simp_all add: k_def)
  have k: "k < length (row ec)" "int k = cursor_y ec"
    using cur(1) assms(2) n by (simp_all add: k_def)
  have rat: "row_at ec (cursor_y ec) = Some (row ec ! k)"
    using assms(2) cur(1) n by (simp add: row_at_in_range k_def)
  have at: "0 \<le> cursor_y ec + 1" "cursor_y ec + 1 \<le> num_rows ec"
    using assms(2) cur(1) by simp_all
  obtain ec1 where ins: "editor_insert_row ec (cursor_y ec + 1) (drop cx crs) = Some ec1"
    and r1: "doc_wf ec1" "frame_eq ec ec1" "dirty ec1 = wrap_int (dirty ec + 1)"
      "num_rows ec1 = num_rows ec + 1"
      "map chars (row ec1) = take (nat (cursor_y ec + 1)) (map chars (row ec)) @ [drop cx crs]
                @ drop (nat (cursor_y ec + 1)) (map chars (row ec))"
      "list_all row_inv (row ec) \<longrightarrow> list_all row_inv (row ec1)"
    using editor_insert_row_result [OF assms(1) at, of "drop cx crs"] by blast
  have sk: "nat (cursor_y ec + 1) = Suc k"
    using assms(2) by (simp add: k_def nat_add_distrib)
  have ch1: "map chars (row ec1)
      = take (Suc k) (map chars (row ec)) @ [drop cx crs] @ drop (Suc k) (map chars (row ec))"
    using r1(5) by (simp only: sk)
  have len1: "length (row ec1) = Suc (length (row ec))"
    using r1(1,4) n by (simp add: doc_wf_def)
  have c1: "cursor_y ec1 = cursor_y ec" "cursor_x ec1 = cursor_x ec"
    using r1(2) by (simp_all add: frame_eq_def)
  have k1: "k < length (row ec1)"
    using k(1) len1 by simp
  have "cursor_y ec < int (length (row ec1))"
    using k1 k(2) by linarith
  then have ptr: "row_ptr ec1 (cursor_y ec1) = Some k"
    using assms(2) by (simp add: row_ptr_Some c1 k_def)
  have "chars (row ec1 ! k) = map chars (row ec1) ! k"
    using k1 by simp
  also have "\<dots> = map chars (row ec) ! k"
    unfolding ch1 using k(1) by (intro nth_split_row_chars) simp
  finally have same: "chars (row ec1 ! k) = crs"
    using k(1) by (simp add: crs_def)
  obtain ec3 where upd: "editor_update_row
        (ec1\<lparr>row := (row ec1)[k := (row ec1 ! k)\<lparr>chars := take cx crs\<rparr>]\<rparr>) k = Some ec3"
    and r3: "doc_wf ec3" "frame_eq ec1 ec3" "dirty ec3 = dirty ec1" "num_rows ec3 = num_rows ec1"
      "map chars (row ec3) = (map chars (row ec1))[k := take cx crs]"
      "list_all row_inv (row ec1) \<longrightarrow> list_all row_inv (row ec3)"
    using update_row_after_edit [OF r1(1) k1, of "take cx crs"] by blast
  have ch3: "map chars (row ec3)
      = take k (map chars (row ec)) @ [take cx crs, drop cx crs] @ drop (Suc k) (map chars (row ec))"
    unfolding r3(5) ch1 using k(1) by (intro split_row_chars) simp
  have call: "editor_insert_newline ec
      = Some (ec3\<lparr>cursor_y := cursor_y ec3 + 1, cursor_x := 0\<rparr>)"
    using False rat cur ins ptr upd same
    by (simp add: editor_insert_newline_def Let_def c1 cx_def crs_def [symmetric])
  have "doc_wf (ec3\<lparr>cursor_y := cursor_y ec3 + 1, cursor_x := 0\<rparr>)"
    using r3(1) by (simp add: doc_wf_def)
  moreover have "cursor_y ec3 = cursor_y ec"
    using r3(2) c1 by (simp add: frame_eq_def)
  ultimately show ?thesis
    using call False r1(3,4,6) r3(3,4,6) ch3
    by (simp add: k_def cx_def crs_def)
qed




lemma rehighlighted_fields:
  "rehighlighted k ec ec' \<Longrightarrow>
   cursor_x ec' = cursor_x ec \<and> cursor_y ec' = cursor_y ec \<and> num_rows ec' = num_rows ec
   \<and> dirty ec' = dirty ec \<and> filename ec' = filename ec \<and> esyntax ec' = esyntax ec"
proof -
  assume "rehighlighted k ec ec'"
  then have e: "ec' = ec\<lparr>row := row ec'\<rparr>"
    by (simp add: rehighlighted_def)
  have "cursor_x (ec\<lparr>row := row ec'\<rparr>) = cursor_x ec" "cursor_y (ec\<lparr>row := row ec'\<rparr>) = cursor_y ec"
    "num_rows (ec\<lparr>row := row ec'\<rparr>) = num_rows ec" "dirty (ec\<lparr>row := row ec'\<rparr>) = dirty ec"
    "filename (ec\<lparr>row := row ec'\<rparr>) = filename ec" "esyntax (ec\<lparr>row := row ec'\<rparr>) = esyntax ec"
    by simp_all
  then show ?thesis
    using e by simp
qed









section \<open>Properties of the search\<close>

lemma find_sub_iff:
  "(find_sub xs q off \<noteq> None) = (\<exists>u v. xs = u @ q @ v)"
proof (induction xs arbitrary: off)
  case Nil
  then show ?case by auto
next
  case (Cons x xs)
  show ?case
  proof (cases "take (length q) (x # xs) = q")
    case True
    have "x # xs = [] @ take (length q) (x # xs) @ drop (length q) (x # xs)"
      by simp
    then have "\<exists>u v. x # xs = u @ q @ v"
      unfolding True by blast
    then show ?thesis
      using True by simp
  next
    case False
    have "(\<exists>u v. x # xs = u @ q @ v) = (\<exists>u v. xs = u @ q @ v)"
    proof
      assume "\<exists>u v. x # xs = u @ q @ v"
      then obtain u v where uv: "x # xs = u @ q @ v" by blast
      show "\<exists>u v. xs = u @ q @ v"
      proof (cases u)
        case Nil
        with uv have "take (length q) (x # xs) = q" by simp
        with False show ?thesis by simp
      next
        case (Cons y u')
        with uv have "xs = u' @ q @ v" by simp
        then show ?thesis by blast
      qed
    next
      assume "\<exists>u v. xs = u @ q @ v"
      then obtain u v where "xs = u @ q @ v" by blast
      then have "x # xs = (x # u) @ q @ v" by simp
      then show "\<exists>u v. x # xs = u @ q @ v" by blast
    qed
    then show ?thesis
      using False Cons.IH [of "Suc off"] by simp
  qed
qed

lemma find_sub_bound:
  "find_sub xs q off = Some m \<Longrightarrow> off \<le> m \<and> (m - off) + length q \<le> length xs"
proof (induction xs arbitrary: off)
  case Nil
  then show ?case by (auto split: if_splits)
next
  case (Cons x xs)
  show ?case
  proof (cases "take (length q) (x # xs) = q")
    case True
    have "length (take (length q) (x # xs)) \<le> length (x # xs)"
      by simp
    then have "length q \<le> length (x # xs)"
      unfolding True .
    with True Cons.prems show ?thesis by simp
  next
    case False
    with Cons.prems have "find_sub xs q (Suc off) = Some m" by simp
    from Cons.IH [OF this] show ?thesis by auto
  qed
qed

text \<open>\<^verbatim>\<open>strstr\<close> finds the query exactly when the string contains it.\<close>

lemma strstr_iff: "(strstr h q \<noteq> None) = (\<exists>u v. cstr h = u @ cstr q @ v)"
  unfolding strstr_def by (rule find_sub_iff)

lemma cstr_length_le: "length (cstr s) \<le> length s"
  by (simp add: cstr_def length_takeWhile_le)

lemma strstr_bound: "strstr h q = Some m \<Longrightarrow> m + strlen q \<le> length h"
proof -
  assume "strstr h q = Some m"
  then have "(m - 0) + length (cstr q) \<le> length (cstr h)"
    unfolding strstr_def by (rule find_sub_bound [THEN conjunct2])
  then show ?thesis
    using cstr_length_le [of h] by (simp add: strlen_def)
qed

lemma wrap_index_range:
  "0 < n \<Longrightarrow> - 1 \<le> c \<Longrightarrow> c \<le> n \<Longrightarrow> 0 \<le> wrap_index n c \<and> wrap_index n c < n"
  by (simp add: wrap_index_def)

lemma wrap_index_code:
  "- 1 \<le> c \<Longrightarrow> c \<le> n \<Longrightarrow>
   (if c = - 1 then n - 1 else if c = n then 0 else c) = wrap_index n c"
  by (auto simp: wrap_index_def)

text \<open>The loop visits the rows in the order \<open>scan_order\<close> and stops at the first one that
  matches; without a match it returns the state it was given.\<close>

lemma find_scan_order:
  assumes "num_rows ec = int (length (row ec))" "direction fs = 1 \<or> direction fs = - 1"
  shows "- 1 \<le> current \<Longrightarrow> current < num_rows ec \<Longrightarrow> (current = - 1 \<longrightarrow> direction fs = 1) \<Longrightarrow>
     0 \<le> i \<Longrightarrow> k = nat (num_rows ec - i) \<Longrightarrow>
     find_scan query ec fs current i
       = (case List.find (row_matches ec query)
                 (scan_order (num_rows ec) (direction fs) current k) of
            None \<Rightarrow> Some (ec, fs)
          | Some c \<Rightarrow>
              Some (find_hit query ec fs c (row ec ! nat c)
                      (the (strstr (render (row ec ! nat c)) query))))"
proof (induction k arbitrary: current i)
  case 0
  then have "\<not> i < num_rows ec" by simp
  then show ?case
    by (subst find_scan.simps) simp
next
  case (Suc k)
  then have i: "i < num_rows ec" by simp
  then have n: "0 < num_rows ec" using Suc.prems(4) by simp
  define c2 where "c2 = wrap_index (num_rows ec) (current + direction fs)"
  have c1: "- 1 \<le> current + direction fs" "current + direction fs \<le> num_rows ec"
    using Suc.prems(1-3) assms(2) by auto
  have code: "(if current + direction fs = - 1 then num_rows ec - 1
               else if current + direction fs = num_rows ec then 0
               else current + direction fs) = c2"
    unfolding c2_def using c1 by (rule wrap_index_code)
  have r: "0 \<le> c2" "c2 < num_rows ec"
    using wrap_index_range [OF n c1] by (simp_all add: c2_def)
  have rat: "row_at ec c2 = Some (row ec ! nat c2)"
    using r assms(1) by (simp add: row_at_def)
  show ?case
  proof (cases "strstr (render (row ec ! nat c2)) query")
    case (Some m)
    have "find_scan query ec fs current i = Some (find_hit query ec fs c2 (row ec ! nat c2) m)"
      using i rat Some by (subst find_scan.simps) (simp add: Let_def code)
    moreover have "row_matches ec query c2"
      using Some by (simp add: row_matches_def)
    ultimately show ?thesis
      using Some by (simp add: c2_def [symmetric])
  next
    case None
    have step: "find_scan query ec fs current i = find_scan query ec fs c2 (i + 1)"
      using i rat None by (subst find_scan.simps) (simp add: Let_def code)
    have "k = nat (num_rows ec - (i + 1))"
      using Suc.prems(5) by simp
    then have "find_scan query ec fs c2 (i + 1)
       = (case List.find (row_matches ec query)
                 (scan_order (num_rows ec) (direction fs) c2 k) of
            None \<Rightarrow> Some (ec, fs)
          | Some c \<Rightarrow>
              Some (find_hit query ec fs c (row ec ! nat c)
                      (the (strstr (render (row ec ! nat c)) query))))"
      using r Suc.prems(4) by (intro Suc.IH) simp_all
    moreover have "\<not> row_matches ec query c2"
      using None by (simp add: row_matches_def)
    ultimately show ?thesis
      using step by (simp add: c2_def [symmetric])
  qed
qed

lemma length_scan_order: "length (scan_order n dir c k) = k"
  by (induction k arbitrary: c) simp_all

section \<open>Restoring the highlight after a search match\<close>

text \<open>What the loop can return: the state it was given, or a hit on a row of the array.\<close>

lemma find_scan_result:
  "find_scan query ec fs current i = Some (ec', fs') \<Longrightarrow>
   (ec' = ec \<and> fs' = fs)
   \<or> (\<exists>c r m. row_at ec c = Some r \<and> strstr (render r) query = Some m
         \<and> (ec', fs') = find_hit query ec fs c r m)"
proof (induction query ec fs current i rule: find_scan.induct)
  case (1 query ec fs current i)
  show ?case
  proof (cases "i < num_rows ec")
    case False
    with "1.prems" show ?thesis
      by (subst (asm) find_scan.simps) simp
  next
    case True
    define c2 where "c2 = (if current + direction fs = - 1 then num_rows ec - 1
                   else if current + direction fs = num_rows ec then 0
                   else current + direction fs)"
    have unfold: "find_scan query ec fs current i
        = (case row_at ec c2 of
              None \<Rightarrow> None
            | Some r \<Rightarrow>
               (case strstr (render r) query of
                  Some m \<Rightarrow> Some (find_hit query ec fs c2 r m)
                | None \<Rightarrow> find_scan query ec fs c2 (i + 1)))"
      unfolding c2_def using True by (subst find_scan.simps) (simp add: Let_def)
    obtain r where r: "row_at ec c2 = Some r"
      using "1.prems" unfold by (cases "row_at ec c2") simp_all
    show ?thesis
    proof (cases "strstr (render r) query")
      case (Some m)
      then have "(ec', fs') = find_hit query ec fs c2 r m"
        using "1.prems" unfold r by simp
      with r Some show ?thesis by blast
    next
      case None
      then have "find_scan query ec fs c2 (i + 1) = Some (ec', fs')"
        using "1.prems" unfold r by simp
      then show ?thesis
        using "1.IH" [OF True refl c2_def r None] by simp
    qed
  qed
qed

lemma row_at_SomeD:
  "row_at ec c = Some r \<Longrightarrow> 0 \<le> c \<and> nat c < length (row ec) \<and> r = row ec ! nat c"
  by (auto simp: row_at_def split: if_splits)

text \<open>After a hit on a row whose highlight array has the length of its render text, the
  restore block of the next call gives the rows back as they were.\<close>

lemma find_restore_after_hit:
  assumes "row_at ec c = Some r" "strstr (render r) query = Some m" "hl_sized r"
    "find_hit query ec fs c r m = (ec1, fs1)"
  shows "find_restore ec1 fs1 = Some (ec1\<lparr>row := row ec\<rparr>, fs1\<lparr>saved_hl := None\<rparr>)"
proof -
  have c: "0 \<le> c" "nat c < length (row ec)" "r = row ec ! nat c"
    using row_at_SomeD [OF assms(1)] by simp_all
  have sz: "length (hl r) = length (render r)"
    using assms(3) by (simp add: hl_sized_def)
  have "m + strlen query \<le> length (hl r)"
    using strstr_bound [OF assms(2)] sz by simp
  then have lm: "length (memset (hl r) m HL_MATCH (strlen query)) = length (hl r)"
    by (rule length_memset)
  define r1 where "r1 = r\<lparr>hl := memset (hl r) m HL_MATCH (strlen query)\<rparr>"
  have ec1: "ec1 = ec\<lparr>cursor_y := c, cursor_x := editor_row_rx2cx r (int m),
                     row := (row ec)[nat c := r1]\<rparr>"
    and fs1: "fs1 = fs\<lparr>last_match := c, saved_hl_line := c,
                      saved_hl := Some (take (length (render r)) (hl r))\<rparr>"
    using assms(4) by (simp_all add: find_hit_def r1_def)
  have rat1: "row_at ec1 (saved_hl_line fs1) = Some r1"
    using c by (simp add: row_at_def ec1 fs1)
  have "memcpy (hl r1) (take (length (render r)) (hl r)) (length (render r1)) = hl r"
    using lm sz by (simp add: memcpy_def r1_def)
  then have same: "r1\<lparr>hl := memcpy (hl r1) (take (length (render r)) (hl r)) (length (render r1))\<rparr> = r"
    by (simp add: r1_def)
  have "(row ec1)[nat (saved_hl_line fs1) := r] = row ec"
    using c by (simp add: ec1 fs1)
  then show ?thesis
    using rat1 same by (simp add: find_restore_def fs1)
qed

lemma find_direction_ok:
  assumes "- 1 \<le> last_match fs" "last_match fs < n"
  shows "(direction (find_direction key fs) = 1 \<or> direction (find_direction key fs) = - 1)
     \<and> - 1 \<le> last_match (find_direction key fs) \<and> last_match (find_direction key fs) < n
     \<and> (last_match (find_direction key fs) = - 1 \<longrightarrow> direction (find_direction key fs) = 1)
     \<and> saved_hl (find_direction key fs) = saved_hl fs"
  using assms by (auto simp: find_direction_def Let_def)

lemma find_hit_saved: "saved_hl (snd (find_hit query ec fs c r m)) \<noteq> None"
  by (simp add: find_hit_def)

section \<open>The search session\<close>

lemma doc_inv_hl_update:
  assumes "doc_inv ec" "num_rows ec' = num_rows ec" "l < length (row ec)"
    "row ec' = (row ec)[l := (row ec ! l)\<lparr>hl := h\<rparr>]" "length h = length (render (row ec ! l))"
  shows "doc_inv ec'"
proof -
  have wf: "num_rows ec = int (length (row ec))" "idx_ok (row ec)"
    and all: "list_all row_inv (row ec)"
    using assms(1) by (simp_all add: doc_inv_def doc_wf_def)
  have "idx_ok (row ec')"
    unfolding assms(4) using wf(2) assms(3) by (rule idx_ok_update) simp
  moreover have "list_all row_inv (row ec')"
    using all assms(3,5) by (auto simp: list_all_length assms(4) nth_list_update row_inv_def)
  ultimately show ?thesis
    using wf(1) assms(2) by (simp add: doc_inv_def doc_wf_def assms(4))
qed

text \<open>The first block of the callback on a state that satisfies the invariant.\<close>

lemma find_restore_inv:
  assumes "doc_inv ec" "search_inv ec fs"
  shows "\<exists>ecr. find_restore ec fs = Some (ecr, fs\<lparr>saved_hl := None\<rparr>)
     \<and> doc_inv ecr \<and> num_rows ecr = num_rows ec \<and> length (row ecr) = length (row ec)
     \<and> (\<forall>j < length (row ec). j \<noteq> nat (saved_hl_line fs) \<longrightarrow> row ecr ! j = row ec ! j)
     \<and> (saved_hl fs = None \<longrightarrow> ecr = ec)
     \<and> (\<forall>sv. saved_hl fs = Some sv \<longrightarrow>
           hl (row ecr ! nat (saved_hl_line fs)) = sv
           \<and> same_text (row ec ! nat (saved_hl_line fs)) (row ecr ! nat (saved_hl_line fs)))"
proof (cases "saved_hl fs")
  case None
  then have "fs\<lparr>saved_hl := None\<rparr> = fs"
    by simp
  then show ?thesis
    using None assms(1) by (simp add: find_restore_def)
next
  case (Some sv)
  define l where "l = nat (saved_hl_line fs)"
  define r where "r = row ec ! l"
  have n: "num_rows ec = int (length (row ec))" and all: "list_all row_inv (row ec)"
    using assms(1) by (simp_all add: doc_inv_def doc_wf_def)
  have line: "0 \<le> saved_hl_line fs" "saved_hl_line fs < num_rows ec"
    and sv: "length sv = length (render r)"
    using assms(2) Some by (simp_all add: search_inv_def r_def l_def)
  have l: "l < length (row ec)"
    using line n by (simp add: l_def)
  have rat: "row_at ec (saved_hl_line fs) = Some r"
    using line n by (simp add: row_at_def r_def l_def)
  have "row_inv r"
    using all l by (simp add: list_all_length r_def)
  then have hr: "length (hl r) = length (render r)"
    by (simp add: row_inv_def)
  have cp: "memcpy (hl r) sv (length (render r)) = sv"
    using sv hr by (simp add: memcpy_def)
  define ecr where "ecr = ec\<lparr>row := (row ec)[l := r\<lparr>hl := sv\<rparr>]\<rparr>"
  have run: "find_restore ec fs = Some (ecr, fs\<lparr>saved_hl := None\<rparr>)"
    using Some rat cp by (simp add: find_restore_def ecr_def l_def)
  have rows: "row ecr = (row ec)[l := (row ec ! l)\<lparr>hl := sv\<rparr>]" "num_rows ecr = num_rows ec"
    by (simp_all add: ecr_def r_def)
  have inv: "doc_inv ecr"
    using assms(1) rows(2) l rows(1) sv [unfolded r_def] by (rule doc_inv_hl_update)
  have others: "\<forall>j < length (row ec). j \<noteq> nat (saved_hl_line fs) \<longrightarrow> row ecr ! j = row ec ! j"
    by (simp add: rows l_def)
  have this_row: "hl (row ecr ! l) = sv" "same_text (row ec ! l) (row ecr ! l)"
    using l by (simp_all add: rows same_text_def)
  show ?thesis
    using run inv rows(2) others this_row Some
    by (intro exI [of _ ecr]) (simp add: rows(1) l_def)
qed

lemma find_hit_inv:
  assumes "doc_inv ec" "row_at ec c = Some r" "strstr (render r) query = Some m"
    "find_hit query ec fs c r m = (ec', fs')"
  shows "doc_inv ec' \<and> search_inv ec' fs' \<and> num_rows ec' = num_rows ec
     \<and> find_restore ec' fs' = Some (ec'\<lparr>row := row ec\<rparr>, fs'\<lparr>saved_hl := None\<rparr>)"
proof -
  have n: "num_rows ec = int (length (row ec))" and all: "list_all row_inv (row ec)"
    using assms(1) by (simp_all add: doc_inv_def doc_wf_def)
  have c: "0 \<le> c" "nat c < length (row ec)" "r = row ec ! nat c"
    using row_at_SomeD [OF assms(2)] by simp_all
  have "row_inv r"
    using all c by (simp add: list_all_length)
  then have hr: "length (hl r) = length (render r)"
    by (simp add: row_inv_def)
  then have sized: "hl_sized r"
    by (simp add: hl_sized_def)
  have "m + strlen query \<le> length (hl r)"
    using strstr_bound [OF assms(3)] hr by simp
  then have lm: "length (memset (hl r) m HL_MATCH (strlen query)) = length (render (row ec ! nat c))"
    using hr c(3) by (simp add: length_memset)
  have ec': "row ec' = (row ec)[nat c := (row ec ! nat c)\<lparr>hl := memset (hl r) m HL_MATCH (strlen query)\<rparr>]"
    "num_rows ec' = num_rows ec"
    and fs': "last_match fs' = c" "saved_hl_line fs' = c"
    "saved_hl fs' = Some (take (length (render r)) (hl r))"
    using assms(4) c(3) by (auto simp: find_hit_def)
  have inv: "doc_inv ec'"
    using assms(1) ec'(2) c(2) ec'(1) lm by (rule doc_inv_hl_update)
  have "render (row ec' ! nat c) = render r"
    using c by (simp add: ec'(1))
  then have sinv: "search_inv ec' fs'"
    using c n hr by (simp add: search_inv_def fs' ec'(2))
  have "find_restore ec' fs' = Some (ec'\<lparr>row := row ec\<rparr>, fs'\<lparr>saved_hl := None\<rparr>)"
    using assms(2,3) sized assms(4) by (rule find_restore_after_hit)
  with inv sinv ec'(2) show ?thesis
    by simp
qed

text \<open>One call of the callback keeps the invariant, and the rows that its restore block
  would give afterwards are the rows that its restore block gave.\<close>

lemma editor_find_callback_inv:
  assumes "doc_inv ec" "search_inv ec fs" "find_restore ec fs = Some (ec0, f0)"
  shows "\<exists>ec' fs' e' f'. editor_find_callback query key ec fs = Some (ec', fs')
     \<and> doc_inv ec' \<and> search_inv ec' fs'
     \<and> find_restore ec' fs' = Some (e', f') \<and> row e' = row ec0"
proof -
  from find_restore_inv [OF assms(1,2)] assms(3)
  have f0: "f0 = fs\<lparr>saved_hl := None\<rparr>" and inv0: "doc_inv ec0"
    and n0: "num_rows ec0 = num_rows ec"
    by auto
  have n: "num_rows ec0 = int (length (row ec0))"
    using inv0 by (simp add: doc_inv_def doc_wf_def)
  have lm: "- 1 \<le> last_match f0" "last_match f0 < num_rows ec0"
    using assms(2) by (simp_all add: search_inv_def f0 n0)
  have clean: "find_restore ec0 f = Some (ec0, f)" if "saved_hl f = None" for f
    using that by (simp add: find_restore_def)
  show ?thesis
  proof (cases "key = 13 \<or> key = 27")
    case True
    define fs' where "fs' = f0\<lparr>last_match := - 1, direction := 1\<rparr>"
    have run: "editor_find_callback query key ec fs = Some (ec0, fs')"
      using assms(3) True by (simp add: editor_find_callback_def fs'_def)
    have s: "saved_hl fs' = None"
      by (simp add: fs'_def f0)
    have "search_inv ec0 fs'"
      using n by (simp add: search_inv_def fs'_def f0)
    with run inv0 clean [OF s] show ?thesis
      by (intro exI [of _ ec0] exI [of _ fs']) simp
  next
    case False
    define fs2 where "fs2 = find_direction key f0"
    note d = find_direction_ok [OF lm, of key, folded fs2_def]
    have s2: "saved_hl fs2 = None"
      using d by (simp add: f0)
    have call: "editor_find_callback query key ec fs = find_scan query ec0 fs2 (last_match fs2) 0"
      using assms(3) False by (simp add: editor_find_callback_def Let_def fs2_def)
    have scan: "find_scan query ec0 fs2 (last_match fs2) 0
       = (case List.find (row_matches ec0 query)
                 (scan_order (num_rows ec0) (direction fs2) (last_match fs2)
                    (nat (num_rows ec0))) of
            None \<Rightarrow> Some (ec0, fs2)
          | Some c \<Rightarrow>
              Some (find_hit query ec0 fs2 c (row ec0 ! nat c)
                      (the (strstr (render (row ec0 ! nat c)) query))))"
      using n d by (intro find_scan_order) simp_all
    then have "find_scan query ec0 fs2 (last_match fs2) 0 \<noteq> None"
      by (simp split: option.split)
    then obtain res0 where res0: "find_scan query ec0 fs2 (last_match fs2) 0 = Some res0"
      by auto
    obtain ec' fs' where "res0 = (ec', fs')"
      by (cases res0)
    with res0 have res: "find_scan query ec0 fs2 (last_match fs2) 0 = Some (ec', fs')"
      by simp
    from find_scan_result [OF res] show ?thesis
    proof
      assume "ec' = ec0 \<and> fs' = fs2"
      then have run: "editor_find_callback query key ec fs = Some (ec0, fs2)"
        using call res by simp
      have "search_inv ec0 fs2"
        using d s2 by (simp add: search_inv_def)
      with run inv0 clean [OF s2] show ?thesis
        by (intro exI [of _ ec0] exI [of _ fs2]) simp
    next
      assume "\<exists>c r m. row_at ec0 c = Some r \<and> strstr (render r) query = Some m
         \<and> (ec', fs') = find_hit query ec0 fs2 c r m"
      then obtain c r m where rat: "row_at ec0 c = Some r"
        and hit: "strstr (render r) query = Some m"
        and eq: "find_hit query ec0 fs2 c r m = (ec', fs')"
        by auto
      note h = find_hit_inv [OF inv0 rat hit eq]
      have run: "editor_find_callback query key ec fs = Some (ec', fs')"
        using call res by simp
      show ?thesis
        using run h
        by (intro exI [of _ ec'] exI [of _ fs'] exI [of _ "ec'\<lparr>row := row ec0\<rparr>"]
            exI [of _ "fs'\<lparr>saved_hl := None\<rparr>"]) simp
    qed
  qed
qed

lemma find_session_inv:
  "doc_inv ec \<Longrightarrow> search_inv ec fs \<Longrightarrow> find_restore ec fs = Some (ec0, f0) \<Longrightarrow>
   \<exists>ec1 fs1 e1 f1. find_session ks ec fs = Some (ec1, fs1)
     \<and> doc_inv ec1 \<and> search_inv ec1 fs1
     \<and> find_restore ec1 fs1 = Some (e1, f1) \<and> row e1 = row ec0"
proof (induction ks arbitrary: ec fs ec0 f0)
  case Nil
  then show ?case by simp
next
  case (Cons qk ks)
  obtain query key where qk: "qk = (query, key)"
    by (cases qk)
  from editor_find_callback_inv [OF Cons.prems, of query key]
  obtain ec' fs' e' f' where run: "editor_find_callback query key ec fs = Some (ec', fs')"
    and inv: "doc_inv ec'" "search_inv ec' fs'"
    and re: "find_restore ec' fs' = Some (e', f')" and rows: "row e' = row ec0"
    by (elim exE conjE)
  from Cons.IH [OF inv re]
  obtain ec1 fs1 e1 f1 where "find_session ks ec' fs' = Some (ec1, fs1)"
    "doc_inv ec1" "search_inv ec1 fs1" "find_restore ec1 fs1 = Some (e1, f1)" "row e1 = row e'"
    by (elim exE conjE)
  then show ?case
    using run rows by (simp add: qk)
qed

section \<open>Substrings\<close>

lemma contains_sub_iff: "contains_sub s q = (\<exists>u v. s = u @ q @ v)"
proof
  assume "contains_sub s q"
  then obtain i where i: "take (length q) (drop i s) = q"
    by (auto simp: contains_sub_def list_ex_iff)
  have "drop i s = take (length q) (drop i s) @ drop (length q) (drop i s)"
    by (simp only: append_take_drop_id)
  then have "drop i s = q @ drop (length q) (drop i s)"
    unfolding i .
  moreover have "s = take i s @ drop i s"
    by (simp only: append_take_drop_id)
  ultimately have "s = take i s @ q @ drop (length q) (drop i s)"
    by simp
  then show "\<exists>u v. s = u @ q @ v"
    by blast
next
  assume "\<exists>u v. s = u @ q @ v"
  then obtain u v where s: "s = u @ q @ v"
    by blast
  have "length u < Suc (length s)" "take (length q) (drop (length u) s) = q"
    by (simp_all add: s)
  then show "contains_sub s q"
    unfolding contains_sub_def list_ex_iff by (intro bexI [of _ "length u"]) auto
qed

lemma cstr_id: "NUL \<notin> set s \<Longrightarrow> cstr s = s"
  by (auto simp: cstr_def)

lemma row_matches_contains:
  "row_matches ec query c = contains_sub (cstr (render (row ec ! nat c))) (cstr query)"
  unfolding row_matches_def contains_sub_iff by (rule strstr_iff)

section \<open>Keyword matching\<close>

lemma strncmp_eq_iff:
  "n \<le> strlen b \<Longrightarrow> strncmp_eq a b n = (n \<le> length a \<and> take n a = take n b)"
proof (induction n arbitrary: a b)
  case 0
  then show ?case by simp
next
  case (Suc n)
  from Suc.prems obtain y b' where b: "b = y # b'" and y: "y \<noteq> NUL" and n: "n \<le> strlen b'"
    by (cases b) (auto simp: strlen_Cons strlen_Nil split: if_splits)
  show ?case
  proof (cases a)
    case Nil
    then show ?thesis
      using y by (simp add: b first_byte_def)
  next
    case (Cons x a')
    then show ?thesis
      using y Suc.IH [OF n, of a'] by (auto simp: b first_byte_def)
  qed
qed

lemma cstr_take: "cstr kw = take (strlen kw) kw"
  unfolding strlen_def cstr_def by (rule takeWhile_eq_take)

lemma cstr_nth: "j < strlen kw \<Longrightarrow> kw ! j = cstr kw ! j"
  unfolding strlen_def cstr_def by (simp add: takeWhile_nth)

lemma kw_marked_code: "(strlen kw > 0 \<and> kw ! (strlen kw - 1) = CHR ''|'') = kw_marked kw"
proof (cases "cstr kw = []")
  case True
  then show ?thesis by (simp add: kw_marked_def strlen_def)
next
  case False
  then have "strlen kw - 1 < strlen kw" by (simp add: strlen_def)
  then have "kw ! (strlen kw - 1) = cstr kw ! (strlen kw - 1)" by (rule cstr_nth)
  also have "\<dots> = last (cstr kw)"
    using False by (simp add: last_conv_nth strlen_def)
  finally show ?thesis
    using False by (simp add: kw_marked_def strlen_def)
qed

lemma kw_text_length:
  "length (kw_text kw) = (if kw_marked kw then strlen kw - 1 else strlen kw)"
  by (simp add: kw_text_def strlen_def)

lemma kw_text_le: "length (kw_text kw) \<le> strlen kw"
  by (simp add: kw_text_length)

lemma kw_text_take: "take (length (kw_text kw)) kw = kw_text kw"
proof -
  have "kw_text kw = take (length (kw_text kw)) (cstr kw)"
    by (simp add: kw_text_def butlast_conv_take)
  also have "\<dots> = take (length (kw_text kw)) kw"
    using kw_text_le [of kw] by (subst cstr_take) (simp add: min_def)
  finally show ?thesis by simp
qed

text \<open>The test of one entry in the loop over \<^verbatim>\<open>keywords\<close>.\<close>

lemma keyword_test:
  assumes "i \<le> length rnd"
  shows "(strncmp_eq (drop i rnd) kw (length (kw_text kw))
          \<and> is_separator (byte_at rnd (int (i + length (kw_text kw)))))
       = keyword_at rnd i kw"
proof -
  let ?n = "length (kw_text kw)"
  have cmp: "strncmp_eq (drop i rnd) kw ?n = (?n \<le> length (drop i rnd) \<and> take ?n (drop i rnd) = kw_text kw)"
    using strncmp_eq_iff [OF kw_text_le, of "drop i rnd" kw] by (simp add: kw_text_take)
  have full: "take ?n (drop i rnd) = kw_text kw \<Longrightarrow> i + ?n \<le> length rnd"
  proof -
    assume "take ?n (drop i rnd) = kw_text kw"
    then have "length (take ?n (drop i rnd)) = ?n" by simp
    then show ?thesis using assms by simp
  qed
  have nul: "is_separator NUL"
    by (simp add: is_separator_def)
  have sep: "is_separator (byte_at rnd (int (i + ?n)))
         = (i + ?n = length rnd \<or> (i + ?n < length rnd \<and> is_separator (rnd ! (i + ?n))))"
    if "i + ?n \<le> length rnd"
    using that nul by (cases "i + ?n = length rnd") (simp_all add: byte_at_def nat_add_distrib)
  show ?thesis
    unfolding keyword_at_def cmp using full sep assms by auto
qed

lemma match_keywords_find:
  assumes "i \<le> length rnd"
  shows "match_keywords kws rnd i
       = (case List.find (keyword_at rnd i) kws of
            None \<Rightarrow> None
          | Some kw \<Rightarrow> Some (kw_class kw, length (kw_text kw)))"
proof (induction kws)
  case Nil
  show ?case by simp
next
  case (Cons kw kws)
  have "match_keywords (kw # kws) rnd i
      = (if strncmp_eq (drop i rnd) kw (length (kw_text kw))
            \<and> is_separator (byte_at rnd (int (i + length (kw_text kw))))
         then Some (kw_class kw, length (kw_text kw))
         else match_keywords kws rnd i)"
    by (simp add: Let_def kw_marked_code kw_class_def kw_text_length del: One_nat_def)
  then have "match_keywords (kw # kws) rnd i
      = (if keyword_at rnd i kw then Some (kw_class kw, length (kw_text kw))
         else match_keywords kws rnd i)"
    by (simp only: keyword_test [OF assms])
  then show ?case
    using Cons by simp
qed

lemma find_Some_first:
  "List.find P xs = Some x \<Longrightarrow> \<exists>j < length xs. xs ! j = x \<and> P x \<and> (\<forall>j' < j. \<not> P (xs ! j'))"
  by (auto simp: find_Some_iff)

lemma scan_integer:
  "hls (scan_loop (HLDB ! 0) ''integer'' (scan_init ''integer'' False)) = replicate 7 HL_NORMAL
   \<and> in_comment (scan_loop (HLDB ! 0) ''integer'' (scan_init ''integer'' False)) = False"
  by code_simp

lemma scan_int_x:
  "hls (scan_loop (HLDB ! 0) ''int x'' (scan_init ''int x'' False))
     = [HL_KEYWORD2, HL_KEYWORD2, HL_KEYWORD2, HL_NORMAL, HL_NORMAL]
   \<and> in_comment (scan_loop (HLDB ! 0) ''int x'' (scan_init ''int x'' False)) = False"
  by code_simp

lemma update_syntax_integer:
  "map_option (\<lambda>e. hl (row e ! 0)) (editor_update_syntax ec_integer 0)
     = Some (replicate 7 HL_NORMAL)"
  by (subst editor_update_syntax.simps)
     (simp add: ec_integer_def Let_def incoming_comment_def scan_integer)

lemma update_syntax_int_x:
  "map_option (\<lambda>e. hl (row e ! 0)) (editor_update_syntax ec_int_x 0)
     = Some [HL_KEYWORD2, HL_KEYWORD2, HL_KEYWORD2, HL_NORMAL, HL_NORMAL]"
  by (subst editor_update_syntax.simps)
     (simp add: ec_int_x_def Let_def incoming_comment_def scan_int_x)

lemma keyword_examples:
  "match_keywords C_HL_KEY ''integer'' 0 = None"
  "match_keywords C_HL_KEY ''int x'' 0 = Some (HL_KEYWORD2, 3)"
  "match_keywords C_HL_KEY ''int'' 0 = Some (HL_KEYWORD2, 3)"
  "keyword_at ''int x'' 0 ''int|''" "\<not> keyword_at ''integer'' 0 ''int|''"
  "kw_text ''int|'' = ''int''" "kw_class ''int|'' = HL_KEYWORD2" "kw_class ''if'' = HL_KEYWORD1"
  by code_simp+

section \<open>Re-running the highlighter\<close>

text \<open>A row that is consistent is written back as it is, and the flag does not change, so
  that the function returns without calling itself.\<close>

lemma update_syntax_consistent:
  assumes "k < length (row ec)" "row_consistent ec k"
  shows "editor_update_syntax ec k = Some ec"
proof (cases "esyntax ec")
  case None
  then have "hl (row ec ! k) = replicate (length (render (row ec ! k))) HL_NORMAL"
    using assms(2) by (simp add: row_consistent_def Let_def)
  then have "(row ec ! k)\<lparr>hl := replicate (length (render (row ec ! k))) HL_NORMAL\<rparr> = row ec ! k"
    by simp
  then show ?thesis
    using assms(1) None by (subst editor_update_syntax.simps) (simp add: Let_def)
next
  case (Some syn)
  then obtain ic where ic: "incoming_comment ec (row ec ! k) = Some ic"
    using assms(2) by (cases "incoming_comment ec (row ec ! k)") (simp_all add: row_consistent_def Let_def)
  define st where "st = scan_loop syn (render (row ec ! k)) (scan_init (render (row ec ! k)) ic)"
  have c: "hl (row ec ! k) = hls st" "hl_open_comment (row ec ! k) = in_comment st"
    using assms(2) Some ic by (simp_all add: row_consistent_def Let_def st_def)
  then have "(row ec ! k)\<lparr>hl := hls st, hl_open_comment := in_comment st\<rparr> = row ec ! k"
    by simp
  then show ?thesis
    using assms(1) Some ic c(2)
    by (subst editor_update_syntax.simps) (simp add: Let_def st_def [symmetric])
qed

lemma row_consistent_cong:
  assumes "esyntax ec' = esyntax ec" "length (row ec') = length (row ec)"
    "row ec' ! k = row ec ! k" "0 < k \<longrightarrow> row ec' ! (k - 1) = row ec ! (k - 1)"
    "idx (row ec ! k) = int k" "k < length (row ec)"
  shows "row_consistent ec' k = row_consistent ec k"
proof -
  have "incoming_comment ec' (row ec ! k) = incoming_comment ec (row ec ! k)"
    using assms(2,4,5,6) by (auto simp: incoming_comment_def row_at_def nat_diff_distrib)
  then show ?thesis
    using assms(1,3) by (cases "esyntax ec") (simp_all add: row_consistent_def Let_def)
qed

text \<open>After an update of row \<open>k\<close>, with or without cascade, row \<open>k\<close> is consistent.\<close>

lemma update_syntax_makes_consistent:
  assumes "doc_wf ec" "k < length (row ec)"
  shows "\<exists>ec'. editor_update_syntax ec k = Some ec' \<and> row_consistent ec' k
            \<and> length (row ec') = length (row ec)"
proof -
  have ok: "idx_ok (row ec)" and n: "num_rows ec = int (length (row ec))"
    using assms(1) by (simp_all add: doc_wf_def)
  let ?r = "row ec ! k"
  have idx: "idx ?r = int k"
    using ok assms(2) by (rule idx_ok_nth)
  show ?thesis
  proof (cases "esyntax ec")
    case None
    let ?ec' = "ec\<lparr>row := (row ec)[k := ?r\<lparr>hl := replicate (length (render ?r)) HL_NORMAL\<rparr>]\<rparr>"
    have "editor_update_syntax ec k = Some ?ec'"
      using assms(2) None by (subst editor_update_syntax.simps) (simp add: Let_def)
    moreover have "row_consistent ?ec' k"
      using assms(2) None by (simp add: row_consistent_def Let_def)
    ultimately show ?thesis
      by simp
  next
    case (Some syn)
    define ic where "ic = (0 < k \<and> hl_open_comment (row ec ! (k - 1)))"
    have inc: "incoming_comment ec ?r = Some ic"
      unfolding ic_def using ok assms(2) by (rule incoming_comment_Some)
    define st where "st = scan_loop syn (render ?r) (scan_init (render ?r) ic)"
    define r1 where "r1 = ?r\<lparr>hl := hls st, hl_open_comment := in_comment st\<rparr>"
    define ec1 where "ec1 = ec\<lparr>row := (row ec)[k := r1]\<rparr>"
    have rows1: "row ec1 = (row ec)[k := r1]" "esyntax ec1 = Some syn" "num_rows ec1 = num_rows ec"
      using Some by (simp_all add: ec1_def)
    have len1: "length (row ec1) = length (row ec)"
      by (simp add: rows1)
    have ok1: "idx_ok (row ec1)"
      unfolding rows1 using ok assms(2) by (rule idx_ok_update) (simp add: r1_def)
    have inc1: "incoming_comment ec1 r1 = Some ic"
    proof -
      have "incoming_comment ec1 (row ec1 ! k) = Some (0 < k \<and> hl_open_comment (row ec1 ! (k - 1)))"
        using ok1 assms(2) len1 by (intro incoming_comment_Some) simp_all
      moreover have "row ec1 ! k = r1"
        using assms(2) by (simp add: rows1)
      moreover have "0 < k \<Longrightarrow> row ec1 ! (k - 1) = row ec ! (k - 1)"
        by (simp add: rows1)
      ultimately show ?thesis
        by (auto simp: ic_def)
    qed
    have cons1: "row_consistent ec1 k"
      using assms(2) inc1 by (simp add: row_consistent_def rows1 Let_def r1_def st_def)
    have unfold: "editor_update_syntax ec k
        = (if hl_open_comment ?r \<noteq> in_comment st \<and> idx ?r + 1 < num_rows ec then
             (if 0 \<le> idx ?r + 1 \<and> idx ?r + 1 < int (length (row ec))
              then editor_update_syntax ec1 (nat (idx ?r + 1))
              else None)
           else Some ec1)"
      using assms(2) Some inc
      by (subst editor_update_syntax.simps)
         (simp add: Let_def st_def [symmetric] r1_def [symmetric] ec1_def [symmetric])
    show ?thesis
    proof (cases "hl_open_comment ?r \<noteq> in_comment st \<and> idx ?r + 1 < num_rows ec")
      case False
      have "editor_update_syntax ec k = Some ec1"
        by (simp only: unfold False if_False)
      then show ?thesis
        using cons1 len1 by simp
    next
      case True
      then have k1: "Suc k < length (row ec)"
        using idx n by simp
      have nx: "nat (idx ?r + 1) = Suc k"
        using idx by simp
      have inr: "0 \<le> idx ?r + 1 \<and> idx ?r + 1 < int (length (row ec))"
        using idx k1 by simp
      have call: "editor_update_syntax ec k = editor_update_syntax ec1 (Suc k)"
        by (simp only: unfold True inr nx) simp
      have "\<exists>ec'. editor_update_syntax ec1 (Suc k) = Some ec' \<and> rehighlighted (Suc k) ec1 ec'"
        using ok1 n k1 by (intro editor_update_syntax_rehighlighted) (simp_all add: rows1)
      then obtain ec' where run: "editor_update_syntax ec1 (Suc k) = Some ec'"
        and re: "rehighlighted (Suc k) ec1 ec'"
        by (elim exE conjE)
      have len': "length (row ec') = length (row ec1)"
        and before: "\<And>j. j < Suc k \<Longrightarrow> row ec' ! j = row ec1 ! j"
        using re k1 len1 by (simp_all add: rehighlighted_def)
      have syn': "esyntax ec' = esyntax ec1"
        using rehighlighted_fields [OF re] by simp
      have "row_consistent ec' k = row_consistent ec1 k"
      proof (rule row_consistent_cong [OF syn' len'])
        show "row ec' ! k = row ec1 ! k" by (simp add: before)
        show "0 < k \<longrightarrow> row ec' ! (k - 1) = row ec1 ! (k - 1)" by (simp add: before)
        show "idx (row ec1 ! k) = int k" using ok1 assms(2) len1 by (intro idx_ok_nth) simp_all
        show "k < length (row ec1)" using assms(2) len1 by simp
      qed
      then show ?thesis
        using call run cons1 len' len1 by simp
    qed
  qed
qed

lemma doc_consistent_row: "doc_consistent ec \<Longrightarrow> j < length (row ec) \<Longrightarrow> row_consistent ec j"
  by (simp add: doc_consistent_def list_all_iff)

lemma doc_consistent_ec_comment: "doc_consistent ec_comment"
  by code_simp

lemma row_consistent_examples:
  "\<not> row_consistent ec_integer 0"
  "\<not> row_consistent (ec_comment\<lparr>row := (row ec_comment)[1 := (row ec_comment ! 1)\<lparr>hl := []\<rparr>]\<rparr>) 1"
  by code_simp+

section \<open>The claims about character insertion\<close>

lemma doc_wf_ec_ab: "doc_wf ec_ab"
  by (simp add: doc_wf_def idx_ok_def ec_ab_def)

text \<open>
  Claim C7, as amended. \<^verbatim>\<open>editor_row_insert_char\<close> on a row of a well-formed document
  returns; it inserts the byte at the offset \<open>at\<close> when \<open>0 \<le> at \<le> len\<close>, and at the end
  of the row (offset \<open>len\<close>) for every other \<open>at\<close>, negative ones included. The raw
  content of the row grows by one byte, the other bytes keep their order, and the raw
  content of every other row is unchanged.
\<close>

theorem editor_row_insert_char_offset:
  assumes "doc_wf ec" "k < length (row ec)"
  shows "\<exists>ec'. editor_row_insert_char ec k at c = Some ec'
     \<and> map chars (row ec')
         = (map chars (row ec))
             [k := insert_at (chars (row ec ! k))
                     (nat (if 0 \<le> at \<and> at \<le> len (row ec ! k) then at else len (row ec ! k)))
                     (char_of c)]
     \<and> length (chars (row ec' ! k)) = length (chars (row ec ! k)) + 1"
proof -
  let ?p = "nat (if 0 \<le> at \<and> at \<le> len (row ec ! k) then at else len (row ec ! k))"
  have p: "nat (if at < 0 \<or> at > len (row ec ! k) then len (row ec ! k) else at) = ?p"
    by auto
  obtain ec' where run: "editor_row_insert_char ec k at c = Some ec'"
    and wf: "doc_wf ec'" "num_rows ec' = num_rows ec"
    and ch: "map chars (row ec')
         = (map chars (row ec))[k := take ?p (chars (row ec ! k)) @ [char_of c]
                                      @ drop ?p (chars (row ec ! k))]"
    using editor_row_insert_char_result [OF assms, of at c] unfolding p by blast
  have len: "length (row ec') = length (row ec)"
    using wf assms(1) by (simp add: doc_wf_def)
  have "chars (row ec' ! k) = map chars (row ec') ! k"
    using assms(2) len by simp
  also have "\<dots> = take ?p (chars (row ec ! k)) @ [char_of c] @ drop ?p (chars (row ec ! k))"
    using assms(2) by (simp add: ch)
  finally have "length (chars (row ec' ! k)) = length (chars (row ec ! k)) + 1"
    by (simp add: len_def)
  with run ch show ?thesis
    unfolding insert_at_def by blast
qed

lemma insert_at_ec_ab:
  "(map chars (row ec_ab))
     [0 := insert_at (chars (row ec_ab ! 0))
             (nat (if 0 \<le> (- 1 :: int) \<and> - 1 \<le> len (row ec_ab ! 0) then - 1
                   else len (row ec_ab ! 0)))
             (char_of (120 :: int))] = [''abx'']"
  by code_simp

text \<open>
  Example for C7: inserting \<^verbatim>\<open>x\<close> at offset \<open>-1\<close> into the row \<^verbatim>\<open>ab\<close> gives \<^verbatim>\<open>abx\<close>.
\<close>

theorem editor_row_insert_char_offset_witness:
  "doc_wf ec_ab \<and> 0 < length (row ec_ab)
   \<and> (\<exists>ec'. editor_row_insert_char ec_ab 0 (- 1) 120 = Some ec'
         \<and> map chars (row ec') = [''abx''])"
proof -
  have l: "0 < length (row ec_ab)" by (simp add: ec_ab_def)
  obtain ec' where run: "editor_row_insert_char ec_ab 0 (- 1) 120 = Some ec'"
    and ch: "map chars (row ec')
         = (map chars (row ec_ab))
             [0 := insert_at (chars (row ec_ab ! 0))
                     (nat (if 0 \<le> (- 1 :: int) \<and> - 1 \<le> len (row ec_ab ! 0) then - 1
                           else len (row ec_ab ! 0)))
                     (char_of (120 :: int))]"
    using editor_row_insert_char_offset [OF doc_wf_ec_ab l, of "- 1" 120] by blast
  have "map chars (row ec') = [''abx'']"
    using ch by (simp only: insert_at_ec_ab)
  with run have "\<exists>ec'. editor_row_insert_char ec_ab 0 (- 1) 120 = Some ec'
         \<and> map chars (row ec') = [''abx'']"
    by (intro exI [of _ ec'] conjI)
  with doc_wf_ec_ab l show ?thesis
    by (intro conjI)
qed

lemma insert_char_ec_ab:
  "map_option (\<lambda>e. map chars (row e)) (editor_row_insert_char ec_ab 0 (- 1) 120) = Some [''abx'']"
proof -
  have l: "0 < length (row ec_ab)" by (simp add: ec_ab_def)
  obtain ec' where run: "editor_row_insert_char ec_ab 0 (- 1) 120 = Some ec'"
    and ch: "map chars (row ec')
         = (map chars (row ec_ab))
             [0 := take (nat (if (- 1 :: int) < 0 \<or> - 1 > len (row ec_ab ! 0) then len (row ec_ab ! 0) else - 1))
                     (chars (row ec_ab ! 0))
                   @ [char_of (120 :: int)]
                   @ drop (nat (if (- 1 :: int) < 0 \<or> - 1 > len (row ec_ab ! 0) then len (row ec_ab ! 0) else - 1))
                       (chars (row ec_ab ! 0))]"
    using editor_row_insert_char_result [OF doc_wf_ec_ab l, of "- 1" 120] by blast
  have "map chars (row ec') = [''abx'']"
    unfolding ch by code_simp
  with run show ?thesis by simp
qed

text \<open>
  Counterexample to C7 as stated. For the row \<^verbatim>\<open>ab\<close> and \<open>at = -1\<close> the code gives
  \<^verbatim>\<open>abx\<close>, while insertion at the offset clamped to \<open>[0, len]\<close>, which is 0, gives
  \<^verbatim>\<open>xab\<close>.
\<close>

theorem insert_char_clamp_counterexample:
  "map_option (\<lambda>e. map chars (row e)) (editor_row_insert_char ec_ab 0 (- 1) 120) = Some [''abx'']
   \<and> insert_at (chars (row ec_ab ! 0)) (nat (clamp_at (- 1) (len (row ec_ab ! 0)))) (char_of (120 :: int))
       = ''xab''"
proof -
  have "insert_at (chars (row ec_ab ! 0)) (nat (clamp_at (- 1) (len (row ec_ab ! 0))))
          (char_of (120 :: int)) = ''xab''"
    by code_simp
  then show ?thesis
    using insert_char_ec_ab by simp
qed

text \<open>
  Claim C10. When \<^verbatim>\<open>editor_insert_char\<close> is called on a well-formed document with the
  cursor on the line behind the last row (\<open>cursor_y = num_rows\<close>, the empty document
  included), it returns with one row more; the rows that were there keep their raw
  content, the new last row holds the inserted byte alone, and \<open>cursor_x\<close> has advanced
  by one.
\<close>

theorem editor_insert_char_appends_row:
  assumes "doc_wf ec" "cursor_y ec = num_rows ec"
  shows "\<exists>ec'. editor_insert_char ec c = Some ec'
     \<and> num_rows ec' = num_rows ec + 1
     \<and> map chars (row ec') = map chars (row ec) @ [[char_of c]]
     \<and> cursor_x ec' = cursor_x ec + 1"
proof -
  define n where "n = length (row ec)"
  have nr: "num_rows ec = int n"
    using assms(1) by (simp add: doc_wf_def n_def)
  obtain ec1 where ins: "editor_insert_row ec (num_rows ec) [] = Some ec1"
    and wf1: "doc_wf ec1" and fr1: "frame_eq ec ec1" and nr1: "num_rows ec1 = num_rows ec + 1"
    and ch1: "map chars (row ec1) = take (nat (num_rows ec)) (map chars (row ec)) @ [[]]
                @ drop (nat (num_rows ec)) (map chars (row ec))"
    using editor_insert_row_result [OF assms(1), of "num_rows ec" "[]"] nr by auto
  have ch1': "map chars (row ec1) = map chars (row ec) @ [[]]"
    using ch1 by (simp add: nr n_def)
  have len1: "length (row ec1) = Suc n"
    using wf1 nr1 nr by (simp add: doc_wf_def)
  have cy1: "cursor_y ec1 = int n" "cursor_x ec1 = cursor_x ec"
    using fr1 assms(2) nr by (simp_all add: frame_eq_def)
  have ptr: "row_ptr ec1 (cursor_y ec1) = Some n"
    by (simp add: row_ptr_def cy1 len1)
  have k: "n < length (row ec1)" by (simp add: len1)
  have "chars (row ec1 ! n) = map chars (row ec1) ! n"
    using k by simp
  then have empty: "chars (row ec1 ! n) = []"
    by (simp add: ch1' n_def nth_append)
  obtain ec2 where put: "editor_row_insert_char ec1 n (cursor_x ec1) c = Some ec2"
    and fr2: "frame_eq ec1 ec2" and nr2: "num_rows ec2 = num_rows ec1"
    and ch2: "map chars (row ec2) = (map chars (row ec1))[n := [char_of c]]"
    using editor_row_insert_char_result [OF wf1 k, of "cursor_x ec1" c]
    by (auto simp: empty len_def)
  have res: "editor_insert_char ec c = Some (ec2\<lparr>cursor_x := cursor_x ec2 + 1\<rparr>)"
    using assms(2) ins ptr put by (simp add: editor_insert_char_def)
  have "map chars (row ec2) = map chars (row ec) @ [[char_of c]]"
    using list_update_length [of "map chars (row ec)" "[]" "[]" "[char_of c]"]
    by (simp add: ch2 ch1' n_def)
  moreover have "cursor_x ec2 = cursor_x ec"
    using fr2 cy1 by (simp add: frame_eq_def)
  ultimately show ?thesis
    using res nr1 nr2 by simp
qed

text \<open>
  Example for C10: typing \<^verbatim>\<open>h\<close> into the empty document.
\<close>

theorem editor_insert_char_appends_row_witness:
  "doc_wf ec_empty \<and> cursor_y ec_empty = num_rows ec_empty
   \<and> (\<exists>ec'. editor_insert_char ec_empty 104 = Some ec'
         \<and> num_rows ec' = 1 \<and> map chars (row ec') = [''h''] \<and> cursor_x ec' = 1)"
proof -
  have wf: "doc_wf ec_empty" by (simp add: doc_wf_def idx_ok_def ec_empty_def)
  have cy: "cursor_y ec_empty = num_rows ec_empty" by (simp add: ec_empty_def)
  have c: "[[char_of (104 :: int)]] = [''h'']" by code_simp
  show ?thesis
    using editor_insert_char_appends_row [OF wf cy, of 104] wf cy
    by (simp add: c) (simp add: ec_empty_def)
qed

section \<open>Cursor movement\<close>

lemma row_at_Some:
  "0 \<le> y \<Longrightarrow> y < int (length (row ec)) \<Longrightarrow> row_at ec y = Some (row ec ! nat y)"
  by (simp add: row_at_def)

lemma cursor_row_len_Some:
  assumes "num_rows ec = int (length (row ec))" "0 \<le> cursor_y ec"
  shows "cursor_row_len ec
     = Some (if cursor_y ec \<ge> num_rows ec then None else Some (len (row ec ! nat (cursor_y ec))))"
  using assms by (simp add: cursor_row_len_def row_at_def)

lemma move_key_result:
  assumes "num_rows ec = int (length (row ec))" "0 \<le> cursor_y ec" "cursor_y ec \<le> num_rows ec"
  shows "\<exists>ec1. move_key ec key = Some ec1 \<and> row ec1 = row ec \<and> num_rows ec1 = num_rows ec
     \<and> 0 \<le> cursor_y ec1 \<and> cursor_y ec1 \<le> num_rows ec1"
proof -
  consider (left) "key = ARROW_LEFT" | (right) "key \<noteq> ARROW_LEFT" "key = ARROW_RIGHT"
    | (up) "key \<noteq> ARROW_LEFT" "key \<noteq> ARROW_RIGHT" "key = ARROW_UP"
    | (down) "key \<noteq> ARROW_LEFT" "key \<noteq> ARROW_RIGHT" "key \<noteq> ARROW_UP" "key = ARROW_DOWN"
    | (other) "key \<noteq> ARROW_LEFT" "key \<noteq> ARROW_RIGHT" "key \<noteq> ARROW_UP" "key \<noteq> ARROW_DOWN"
    by blast
  then show ?thesis
  proof cases
    case left
    show ?thesis
    proof (cases "cursor_x ec = 0 \<and> cursor_y ec > 0")
      case True
      then have "row_at ec (cursor_y ec - 1) = Some (row ec ! nat (cursor_y ec - 1))"
        using assms by (intro row_at_Some) simp_all
      then show ?thesis
        using left True assms by (simp add: move_key_def)
    next
      case False
      then show ?thesis
        using left assms by (auto simp: move_key_def)
    qed
  next
    case right
    have "cursor_row_len ec
      = Some (if cursor_y ec \<ge> num_rows ec then None else Some (len (row ec ! nat (cursor_y ec))))"
      using assms(1,2) by (rule cursor_row_len_Some)
    then show ?thesis
      using right assms by (auto simp: move_key_def)
  next
    case up
    then show ?thesis using assms by (auto simp: move_key_def)
  next
    case down
    then show ?thesis using assms by (auto simp: move_key_def)
  next
    case other
    then show ?thesis using assms by (auto simp: move_key_def)
  qed
qed

text \<open>
  Claim C9. From a state with \<open>0 \<le> cursor_y \<le> num_rows\<close> (and \<open>num_rows\<close> rows in the
  array), \<^verbatim>\<open>editor_move_cursor\<close> returns for every key, the four directional keys
  included, with \<open>0 \<le> cursor_y \<le> num_rows\<close> and with \<open>cursor_x\<close> at most the length of the
  row the cursor is on, or at most 0 on the line behind the last row. The claim's further
  assumption \<open>cursor_x \<ge> 0\<close> is not needed for these bounds.
\<close>

theorem editor_move_cursor_bounds:
  assumes "num_rows ec = int (length (row ec))" "0 \<le> cursor_y ec" "cursor_y ec \<le> num_rows ec"
  shows "\<exists>ec'. editor_move_cursor ec key = Some ec'
     \<and> row ec' = row ec \<and> num_rows ec' = num_rows ec
     \<and> 0 \<le> cursor_y ec' \<and> cursor_y ec' \<le> num_rows ec'
     \<and> cursor_x ec' \<le> (if cursor_y ec' < num_rows ec'
                          then len (row ec' ! nat (cursor_y ec')) else 0)"
proof -
  obtain ec1 where mk: "move_key ec key = Some ec1" and r: "row ec1 = row ec"
    "num_rows ec1 = num_rows ec" "0 \<le> cursor_y ec1" "cursor_y ec1 \<le> num_rows ec1"
    using move_key_result [OF assms, of key] by blast
  have n1: "num_rows ec1 = int (length (row ec1))"
    using r assms(1) by simp
  have crl: "cursor_row_len ec1
      = Some (if cursor_y ec1 \<ge> num_rows ec1 then None
              else Some (len (row ec1 ! nat (cursor_y ec1))))"
    using n1 r(3) by (rule cursor_row_len_Some)
  show ?thesis
    using mk crl r by (auto simp: editor_move_cursor_def Let_def)
qed

theorem editor_move_cursor_bounds_witness:
  "num_rows ec_two = int (length (row ec_two)) \<and> 0 \<le> cursor_y ec_two
   \<and> cursor_y ec_two \<le> num_rows ec_two
   \<and> (\<exists>ec'. editor_move_cursor ec_two ARROW_DOWN = Some ec'
         \<and> cursor_y ec' = 1 \<and> cursor_x ec' = 1)"
proof -
  have a: "num_rows ec_two = int (length (row ec_two))" "0 \<le> cursor_y ec_two"
    "cursor_y ec_two \<le> num_rows ec_two"
    by (simp_all add: ec_two_def)
  have run: "editor_move_cursor ec_two ARROW_DOWN
      = Some (ec_two\<lparr>cursor_y := 1, cursor_x := 1\<rparr>)"
    by (simp add: editor_move_cursor_def move_key_def cursor_row_len_def row_at_def ec_two_def
        ARROW_DOWN_def ARROW_LEFT_def ARROW_RIGHT_def ARROW_UP_def len_def)
  obtain ec' where "editor_move_cursor ec_two ARROW_DOWN = Some ec'"
    "cursor_x ec' \<le> (if cursor_y ec' < num_rows ec'
                          then len (row ec' ! nat (cursor_y ec')) else 0)"
    using editor_move_cursor_bounds [OF a, of ARROW_DOWN] by blast
  with run have "\<exists>ec'. editor_move_cursor ec_two ARROW_DOWN = Some ec'
         \<and> cursor_y ec' = 1 \<and> cursor_x ec' = 1"
    by simp
  with a show ?thesis by (intro conjI)
qed

section \<open>The size invariant of the rows\<close>

lemma editor_insert_row_inv:
  assumes "doc_inv ec"
  shows "\<exists>ec'. editor_insert_row ec at s = Some ec' \<and> doc_inv ec'"
proof (cases "0 \<le> at \<and> at \<le> num_rows ec")
  case True
  then show ?thesis
    using editor_insert_row_result [of ec at s] assms by (auto simp: doc_inv_def)
next
  case False
  then have "editor_insert_row ec at s = Some ec"
    by (auto simp: editor_insert_row_def)
  with assms show ?thesis by simp
qed

lemma editor_del_row_inv:
  assumes "doc_inv ec"
  shows "doc_inv (editor_del_row ec at)"
proof (cases "0 \<le> at \<and> at < num_rows ec")
  case True
  then show ?thesis
    using editor_del_row_result [of ec at] assms by (simp add: doc_inv_def)
next
  case False
  then have "editor_del_row ec at = ec"
    by (auto simp: editor_del_row_def)
  with assms show ?thesis by simp
qed

lemma editor_row_insert_char_inv:
  assumes "doc_inv ec" "k < length (row ec)"
  shows "\<exists>ec'. editor_row_insert_char ec k p c = Some ec' \<and> doc_inv ec'"
  using editor_row_insert_char_result [of ec k p c] assms by (auto simp: doc_inv_def)

lemma editor_row_del_char_inv:
  assumes "doc_inv ec" "k < length (row ec)"
  shows "\<exists>ec'. editor_row_del_char ec k p = Some ec' \<and> doc_inv ec'"
proof (cases "0 \<le> p \<and> p < len (row ec ! k)")
  case True
  then show ?thesis
    using editor_row_del_char_result [of ec k p] assms by (auto simp: doc_inv_def)
next
  case False
  then have "editor_row_del_char ec k p = Some ec"
    using assms(2) by (auto simp: editor_row_del_char_def Let_def)
  with assms show ?thesis by simp
qed

lemma editor_row_append_str_inv:
  assumes "doc_inv ec" "k < length (row ec)"
  shows "\<exists>ec'. editor_row_append_str ec k s = Some ec' \<and> doc_inv ec'"
  using editor_row_append_str_result [of ec k s] assms by (auto simp: doc_inv_def)

lemma editor_insert_newline_inv:
  assumes "doc_inv ec" "cursor_ok ec"
  shows "\<exists>ec'. editor_insert_newline ec = Some ec' \<and> doc_inv ec'"
proof -
  have wf: "doc_wf ec" and all: "list_all row_inv (row ec)"
    using assms(1) by (simp_all add: doc_inv_def)
  have c: "0 \<le> cursor_y ec" "cursor_y ec \<le> num_rows ec"
    "cursor_x ec = 0
     \<or> (cursor_y ec < num_rows ec \<and> 0 \<le> cursor_x ec
        \<and> cursor_x ec \<le> len (row ec ! nat (cursor_y ec)))"
    using assms(2) by (simp_all add: cursor_ok_def)
  obtain ec' where "editor_insert_newline ec = Some ec'" "doc_wf ec'"
    "list_all row_inv (row ec) \<longrightarrow> list_all row_inv (row ec')"
    using editor_insert_newline_result [OF wf c] by blast
  with all show ?thesis
    by (auto simp: doc_inv_def)
qed

text \<open>
  Claim C3. Let every row of a well-formed document satisfy the size invariant \<open>row_inv\<close>:
  the render text is at least as long as the raw text (\<open>rlen \<ge> len\<close>) and the highlight
  array has exactly \<open>rlen\<close> elements. Then each mutation of the document returns, and every
  row of the document it leaves satisfies the invariant again: \<^verbatim>\<open>editor_insert_row\<close> and
  \<^verbatim>\<open>editor_del_row\<close> for every position, \<^verbatim>\<open>editor_row_insert_char\<close>,
  \<^verbatim>\<open>editor_row_del_char\<close> and \<^verbatim>\<open>editor_row_append_str\<close> on every row of the document and
  for every offset, and \<^verbatim>\<open>editor_insert_newline\<close> with the cursor on the document.
\<close>

theorem mutations_keep_row_sizes:
  assumes "doc_inv ec"
  shows "(\<exists>ec'. editor_insert_row ec at s = Some ec' \<and> doc_inv ec')
     \<and> doc_inv (editor_del_row ec at)
     \<and> (k < length (row ec) \<longrightarrow>
          (\<exists>ec'. editor_row_insert_char ec k p c = Some ec' \<and> doc_inv ec')
          \<and> (\<exists>ec'. editor_row_del_char ec k p = Some ec' \<and> doc_inv ec')
          \<and> (\<exists>ec'. editor_row_append_str ec k s = Some ec' \<and> doc_inv ec'))
     \<and> (cursor_ok ec \<longrightarrow> (\<exists>ec'. editor_insert_newline ec = Some ec' \<and> doc_inv ec'))"
  using assms editor_insert_row_inv editor_del_row_inv editor_row_insert_char_inv
    editor_row_del_char_inv editor_row_append_str_inv editor_insert_newline_inv
  by simp

lemma doc_inv_ec_ab: "doc_inv ec_ab"
  by (simp add: doc_inv_def doc_wf_def idx_ok_def row_inv_def ec_ab_def)

lemma cursor_ok_ec_ab: "cursor_ok ec_ab"
  by (simp add: cursor_ok_def ec_ab_def)

theorem mutations_keep_row_sizes_witness:
  "doc_inv ec_ab \<and> 0 < length (row ec_ab) \<and> cursor_ok ec_ab
   \<and> (\<exists>ec'. editor_insert_row ec_ab 1 ''cd'' = Some ec' \<and> doc_inv ec')
   \<and> doc_inv (editor_del_row ec_ab 0)
   \<and> (\<exists>ec'. editor_row_insert_char ec_ab 0 1 120 = Some ec' \<and> doc_inv ec')
   \<and> (\<exists>ec'. editor_row_del_char ec_ab 0 1 = Some ec' \<and> doc_inv ec')
   \<and> (\<exists>ec'. editor_row_append_str ec_ab 0 ''cd'' = Some ec' \<and> doc_inv ec')
   \<and> (\<exists>ec'. editor_insert_newline ec_ab = Some ec' \<and> doc_inv ec')"
proof -
  have l: "0 < length (row ec_ab)" by (simp add: ec_ab_def)
  show ?thesis
    using mutations_keep_row_sizes [OF doc_inv_ec_ab, of 1 "''cd''" 0 1 120]
      mutations_keep_row_sizes [OF doc_inv_ec_ab, of 0 "''cd''" 0 1 120]
      doc_inv_ec_ab l cursor_ok_ec_ab
    by simp
qed

section \<open>The counter of unsaved changes\<close>


lemma wrap_int_at_max: "wrap_int (INT_MAX + 1) = INT_MIN"
  by (simp add: wrap_int_def INT_MAX_def INT_MIN_def)




lemma find_hit_fields:
  "cursor_y (fst (find_hit query ec fs c r m)) = c
   \<and> last_match (snd (find_hit query ec fs c r m)) = c
   \<and> saved_hl (snd (find_hit query ec fs c r m)) = Some (take (length (render r)) (hl r))"
  by (simp add: find_hit_def)

lemma find_foo_wraps:
  "map_option (\<lambda>(e, f). (cursor_y e, cursor_x e, last_match f))
     (editor_find_callback ''foo'' ARROW_RIGHT ec_foo fs_at_2) = Some (0, 0, 0)"
  by code_simp

lemma find_qux_unchanged:
  "editor_find_callback ''qux'' ARROW_RIGHT ec_foo fs_at_2 = Some (ec_foo, fs_at_2)"
  by code_simp

lemma scan_order_example: "scan_order 3 1 2 3 = [0, 1, 2]"
  by code_simp

lemma find_nul_skips:
  "scan_order 2 1 (- 1) 2 = [0, 1]"
  "contains_sub (render (row ec_nul ! 0)) ''foo''"
  "\<not> row_matches ec_nul ''foo'' 0"
  "map_option (\<lambda>(e, f). (cursor_y e, last_match f))
     (editor_find_callback ''foo'' 111 ec_nul find_state_init) = Some (1, 1)"
  by code_simp+

text \<open>
  Claim C5, as amended. In a document whose array holds \<open>num_rows\<close> rows, and for a search
  state as the callback keeps it, the scan loop returns. It examines the rows in the order
  \<open>scan_order\<close>: \<open>num_rows\<close> rows at most, starting at \<open>last_match + direction\<close>, an index below
  0 wrapping to the last row and an index at \<open>num_rows\<close> wrapping to 0. It stops at the
  first of them whose render text, read as a C string (the bytes in front of its first
  NUL byte), contains the query as a substring; for a row without NUL byte that is the
  whole render text. The cursor row and \<open>last_match\<close> are then set to that row; when no row
  matches, the loop returns the editor state and the search state unchanged. With the
  three rows \<^verbatim>\<open>foo\<close>, \<^verbatim>\<open>bar\<close>, \<^verbatim>\<open>baz\<close> and \<open>last_match = 2\<close>, a forward step of the callback
  for \<^verbatim>\<open>foo\<close> visits the rows 0, 1, 2 and finds row 0, and one for \<^verbatim>\<open>qux\<close> changes nothing.
\<close>

theorem find_scan_first_match:
  assumes "num_rows ec = int (length (row ec))" "find_state_ok ec fs"
  shows "find_scan query ec fs (last_match fs) 0
       = (case List.find (row_matches ec query)
                 (scan_order (num_rows ec) (direction fs) (last_match fs) (nat (num_rows ec))) of
            None \<Rightarrow> Some (ec, fs)
          | Some c \<Rightarrow>
              Some (find_hit query ec fs c (row ec ! nat c)
                      (the (strstr (render (row ec ! nat c)) query))))
     \<and> length (scan_order (num_rows ec) (direction fs) (last_match fs) (nat (num_rows ec)))
         = nat (num_rows ec)
     \<and> row_matches ec query c = (\<exists>u v. cstr (render (row ec ! nat c)) = u @ cstr query @ v)
     \<and> row_matches ec query c = contains_sub (cstr (render (row ec ! nat c))) (cstr query)
     \<and> (NUL \<notin> set (render (row ec ! nat c)) \<and> NUL \<notin> set query \<longrightarrow>
          row_matches ec query c = contains_sub (render (row ec ! nat c)) query)
     \<and> cursor_y (fst (find_hit query ec fs c r m)) = c
     \<and> last_match (snd (find_hit query ec fs c r m)) = c
     \<and> scan_order 3 1 2 3 = [0, 1, 2]
     \<and> map_option (\<lambda>(e, f). (cursor_y e, cursor_x e, last_match f))
          (editor_find_callback ''foo'' ARROW_RIGHT ec_foo fs_at_2) = Some (0, 0, 0)
     \<and> editor_find_callback ''qux'' ARROW_RIGHT ec_foo fs_at_2 = Some (ec_foo, fs_at_2)"
proof -
  have ok: "direction fs = 1 \<or> direction fs = - 1" "- 1 \<le> last_match fs"
    "last_match fs < num_rows ec" "last_match fs = - 1 \<longrightarrow> direction fs = 1"
    using assms(2) by (simp_all add: find_state_ok_def)
  have "find_scan query ec fs (last_match fs) 0
       = (case List.find (row_matches ec query)
                 (scan_order (num_rows ec) (direction fs) (last_match fs) (nat (num_rows ec))) of
            None \<Rightarrow> Some (ec, fs)
          | Some c \<Rightarrow>
              Some (find_hit query ec fs c (row ec ! nat c)
                      (the (strstr (render (row ec ! nat c)) query))))"
    using assms(1) ok by (intro find_scan_order) simp_all
  moreover have "row_matches ec query c
      = (\<exists>u v. cstr (render (row ec ! nat c)) = u @ cstr query @ v)"
    unfolding row_matches_def by (rule strstr_iff)
  moreover have "NUL \<notin> set (render (row ec ! nat c)) \<and> NUL \<notin> set query \<longrightarrow>
          row_matches ec query c = contains_sub (render (row ec ! nat c)) query"
    using row_matches_contains [of ec query c] by (auto simp: cstr_id)
  ultimately show ?thesis
    using length_scan_order find_hit_fields find_foo_wraps find_qux_unchanged scan_order_example
      row_matches_contains [of ec query c]
    by simp
qed

theorem find_scan_first_match_witness:
  "num_rows ec_foo = int (length (row ec_foo)) \<and> find_state_ok ec_foo fs_at_2
   \<and> NUL \<notin> set (render (row ec_foo ! nat 0)) \<and> NUL \<notin> set ''foo''
   \<and> row_matches ec_foo ''foo'' 0 \<and> contains_sub (render (row ec_foo ! nat 0)) ''foo''
   \<and> map_option (\<lambda>(e, f). (cursor_y e, last_match f))
        (find_scan ''foo'' ec_foo fs_at_2 (last_match fs_at_2) 0) = Some (0, 0)"
proof -
  have a: "num_rows ec_foo = int (length (row ec_foo))"
    by (simp add: ec_foo_def)
  have b: "find_state_ok ec_foo fs_at_2"
    by (simp add: find_state_ok_def ec_foo_def fs_at_2_def)
  have n: "NUL \<notin> set (render (row ec_foo ! nat 0))" "NUL \<notin> set ''foo''"
    by (simp_all add: ec_foo_def NUL_def)
  have cs: "contains_sub (render (row ec_foo ! nat 0)) ''foo''"
    by code_simp
  have f: "List.find (row_matches ec_foo ''foo'')
      (scan_order (num_rows ec_foo) (direction fs_at_2) (last_match fs_at_2) (nat (num_rows ec_foo)))
      = Some 0"
    by code_simp
  note inst = find_scan_first_match [OF a b, of "''foo''" 0]
  have "find_scan ''foo'' ec_foo fs_at_2 (last_match fs_at_2) 0
      = Some (find_hit ''foo'' ec_foo fs_at_2 0 (row ec_foo ! nat 0)
                (the (strstr (render (row ec_foo ! nat 0)) ''foo'')))"
    using inst by (simp add: f)
  then have r: "map_option (\<lambda>(e, f). (cursor_y e, last_match f))
        (find_scan ''foo'' ec_foo fs_at_2 (last_match fs_at_2) 0) = Some (0, 0)"
    by (simp add: find_hit_def)
  have "NUL \<notin> set (render (row ec_foo ! nat 0)) \<and> NUL \<notin> set ''foo'' \<longrightarrow>
          row_matches ec_foo ''foo'' 0 = contains_sub (render (row ec_foo ! nat 0)) ''foo''"
    using inst [THEN conjunct2, THEN conjunct2, THEN conjunct2, THEN conjunct2, THEN conjunct1] .
  then have m: "row_matches ec_foo ''foo'' 0"
    using n cs by simp
  from a b n m cs r show ?thesis by (intro conjI)
qed

text \<open>
  Counterexample to C5 as stated. In the document \<open>ec_nul\<close> the render text of row 0 is
  \<^verbatim>\<open>a\<close>, a NUL byte, \<^verbatim>\<open>foo\<close>, and that of row 1 is \<^verbatim>\<open>foo\<close>. A search for \<^verbatim>\<open>foo\<close> from the
  initial search state visits row 0 first, whose render text contains \<^verbatim>\<open>foo\<close>, and yet
  stops at row 1.
\<close>

theorem find_scan_nul_counterexample:
  "doc_inv ec_nul \<and> find_state_ok ec_nul find_state_init
   \<and> scan_order (num_rows ec_nul) (direction find_state_init) (last_match find_state_init)
        (nat (num_rows ec_nul)) = [0, 1]
   \<and> render (row ec_nul ! 0) = [CHR ''a'', NUL] @ ''foo''
   \<and> contains_sub (render (row ec_nul ! 0)) ''foo''
   \<and> map_option (\<lambda>(e, f). (cursor_y e, last_match f))
        (editor_find_callback ''foo'' 111 ec_nul find_state_init) = Some (1, 1)"
proof -
  have a: "doc_inv ec_nul"
    by (simp add: doc_inv_def doc_wf_def idx_ok_def row_inv_def ec_nul_def)
  have b: "find_state_ok ec_nul find_state_init"
    by (simp add: find_state_ok_def find_state_init_def ec_nul_def)
  have c: "scan_order (num_rows ec_nul) (direction find_state_init) (last_match find_state_init)
        (nat (num_rows ec_nul)) = [0, 1]"
    by code_simp
  have d: "render (row ec_nul ! 0) = [CHR ''a'', NUL] @ ''foo''"
    by (simp add: ec_nul_def)
  from a b c d find_nul_skips(2,4) show ?thesis
    by (intro conjI)
qed

text \<open>
  Claim C6. The search state satisfies \<open>search_inv\<close> when \<open>last_match\<close> is \<open>-1\<close> or a row of
  the document and a saved highlight, if there is one, belongs to a row of the document
  and has the length of its render text. The initial search state satisfies it, and every
  call of the callback keeps it. Let every row of a well-formed document satisfy the size
  invariant, and let the search state satisfy \<open>search_inv\<close>. Let \<open>ec0\<close> be the document
  with the saved highlight, if there is one, put back (it is the document itself when
  nothing is saved). Then every sequence \<open>ks\<close> of calls of the callback returns, in a
  state \<open>ec1\<close>, \<open>fs1\<close>. If a match is pending there (a highlight is saved), the saved
  highlight is the highlight array that the matched row has in \<open>ec0\<close>, and all other rows
  are as in \<open>ec0\<close>. The next call returns, for every query and key; when it finds no match
  (it leaves no saved highlight), the rows of the document are exactly the rows of \<open>ec0\<close>:
  the highlight array of the matched row is as it was before the match, and no other row
  has changed.
\<close>

theorem search_highlight_restored:
  assumes "doc_inv ec" "search_inv ec fs"
  shows "search_inv ec find_state_init
     \<and> (\<exists>ec0 f0 ec1 fs1 ec2 fs2.
          find_restore ec fs = Some (ec0, f0) \<and> (saved_hl fs = None \<longrightarrow> ec0 = ec)
          \<and> find_session ks ec fs = Some (ec1, fs1)
          \<and> length (row ec1) = length (row ec0)
          \<and> (\<forall>j < length (row ec0). j \<noteq> nat (saved_hl_line fs1) \<longrightarrow> row ec1 ! j = row ec0 ! j)
          \<and> (\<forall>sv. saved_hl fs1 = Some sv \<longrightarrow>
                sv = hl (row ec0 ! nat (saved_hl_line fs1))
                \<and> same_text (row ec0 ! nat (saved_hl_line fs1)) (row ec1 ! nat (saved_hl_line fs1)))
          \<and> editor_find_callback query key ec1 fs1 = Some (ec2, fs2)
          \<and> (saved_hl fs2 = None \<longrightarrow> row ec2 = row ec0)
          \<and> doc_inv ec2 \<and> search_inv ec2 fs2)"
proof -
  have "num_rows ec = int (length (row ec))"
    using assms(1) by (simp add: doc_inv_def doc_wf_def)
  then have init: "search_inv ec find_state_init"
    by (simp add: search_inv_def find_state_init_def)
  from find_restore_inv [OF assms]
  obtain ec0 where re0: "find_restore ec fs = Some (ec0, fs\<lparr>saved_hl := None\<rparr>)"
    and same0: "saved_hl fs = None \<longrightarrow> ec0 = ec"
    by (elim exE conjE)
  from find_session_inv [OF assms re0, of ks]
  obtain ec1 fs1 e1 f1 where run1: "find_session ks ec fs = Some (ec1, fs1)"
    and inv1: "doc_inv ec1" "search_inv ec1 fs1"
    and re1: "find_restore ec1 fs1 = Some (e1, f1)" and rows1: "row e1 = row ec0"
    by (elim exE conjE)
  from find_restore_inv [OF inv1] re1
  have len1: "length (row e1) = length (row ec1)"
    and others: "\<forall>j < length (row ec1). j \<noteq> nat (saved_hl_line fs1) \<longrightarrow> row e1 ! j = row ec1 ! j"
    and saved: "\<forall>sv. saved_hl fs1 = Some sv \<longrightarrow>
           hl (row e1 ! nat (saved_hl_line fs1)) = sv
           \<and> same_text (row ec1 ! nat (saved_hl_line fs1)) (row e1 ! nat (saved_hl_line fs1))"
    by auto
  have a: "length (row ec1) = length (row ec0)"
    using len1 rows1 by simp
  have b: "\<forall>j < length (row ec0). j \<noteq> nat (saved_hl_line fs1) \<longrightarrow> row ec1 ! j = row ec0 ! j"
    using others a rows1 by simp
  have c: "\<forall>sv. saved_hl fs1 = Some sv \<longrightarrow>
                sv = hl (row ec0 ! nat (saved_hl_line fs1))
                \<and> same_text (row ec0 ! nat (saved_hl_line fs1)) (row ec1 ! nat (saved_hl_line fs1))"
    using saved rows1 by (auto simp: same_text_def)
  from editor_find_callback_inv [OF inv1 re1, of query key]
  obtain ec2 fs2 e2 f2 where run2: "editor_find_callback query key ec1 fs1 = Some (ec2, fs2)"
    and inv2: "doc_inv ec2" "search_inv ec2 fs2"
    and re2: "find_restore ec2 fs2 = Some (e2, f2)" and rows2: "row e2 = row e1"
    by (elim exE conjE)
  have d: "saved_hl fs2 = None \<longrightarrow> row ec2 = row ec0"
  proof
    assume "saved_hl fs2 = None"
    then have "find_restore ec2 fs2 = Some (ec2, fs2)"
      by (simp add: find_restore_def)
    with re2 have "e2 = ec2" by simp
    with rows2 rows1 show "row ec2 = row ec0" by simp
  qed
  from re0 same0 run1 a b c run2 d inv2
  have "\<exists>ec0 f0 ec1 fs1 ec2 fs2.
          find_restore ec fs = Some (ec0, f0) \<and> (saved_hl fs = None \<longrightarrow> ec0 = ec)
          \<and> find_session ks ec fs = Some (ec1, fs1)
          \<and> length (row ec1) = length (row ec0)
          \<and> (\<forall>j < length (row ec0). j \<noteq> nat (saved_hl_line fs1) \<longrightarrow> row ec1 ! j = row ec0 ! j)
          \<and> (\<forall>sv. saved_hl fs1 = Some sv \<longrightarrow>
                sv = hl (row ec0 ! nat (saved_hl_line fs1))
                \<and> same_text (row ec0 ! nat (saved_hl_line fs1)) (row ec1 ! nat (saved_hl_line fs1)))
          \<and> editor_find_callback query key ec1 fs1 = Some (ec2, fs2)
          \<and> (saved_hl fs2 = None \<longrightarrow> row ec2 = row ec0)
          \<and> doc_inv ec2 \<and> search_inv ec2 fs2"
    by (intro exI [of _ ec0] exI [of _ "fs\<lparr>saved_hl := None\<rparr>"] exI [of _ ec1] exI [of _ fs1]
        exI [of _ ec2] exI [of _ fs2] conjI)
  with init show ?thesis ..
qed

lemma doc_inv_ec_foo: "doc_inv ec_foo"
  by (simp add: doc_inv_def doc_wf_def idx_ok_def row_inv_def ec_foo_def)

lemma find_ba_hits:
  "editor_find_callback ''ba'' 97 ec_foo find_state_init = Some (ec_bar_hit, fs_bar_hit)"
  by code_simp

lemma find_bax_misses:
  "map_option (\<lambda>(e, f). (row e, saved_hl f)) (editor_find_callback ''bax'' 120 ec_bar_hit fs_bar_hit)
     = Some (row ec_foo, None)"
  by code_simp

lemma find_session_b_ba:
  "find_session [(''b'', 98), (''ba'', 97)] ec_foo find_state_init = Some (ec_bar_hit, fs_bar_hit)"
  by code_simp

lemma find_b_hits:
  "map_option (\<lambda>(e, f). (hl (row e ! 1), saved_hl f))
     (editor_find_callback ''b'' 98 ec_foo find_state_init)
     = Some ([HL_MATCH, HL_NORMAL, HL_NORMAL], Some [HL_NORMAL, HL_NORMAL, HL_NORMAL])"
  by code_simp

text \<open>The session in which \<^verbatim>\<open>b\<close>, \<^verbatim>\<open>a\<close> and \<^verbatim>\<open>x\<close> are typed on the rows \<^verbatim>\<open>foo\<close>, \<^verbatim>\<open>bar\<close>,
  \<^verbatim>\<open>baz\<close>: the queries \<^verbatim>\<open>b\<close> and \<^verbatim>\<open>ba\<close> match on the second row, the second of these calls
  being entered with the highlight saved by the first; the query \<^verbatim>\<open>bax\<close> matches nothing
  and leaves the rows as they were before the search.\<close>

theorem search_highlight_restored_witness:
  "doc_inv ec_foo \<and> search_inv ec_foo find_state_init
   \<and> find_session [(''b'', 98), (''ba'', 97)] ec_foo find_state_init
       = Some (ec_bar_hit, fs_bar_hit)
   \<and> saved_hl fs_bar_hit = Some [HL_NORMAL, HL_NORMAL, HL_NORMAL]
   \<and> hl (row ec_bar_hit ! 1) = [HL_MATCH, HL_MATCH, HL_NORMAL]
   \<and> hl (row ec_foo ! 1) = [HL_NORMAL, HL_NORMAL, HL_NORMAL]
   \<and> (\<exists>ec2 fs2. editor_find_callback ''bax'' 120 ec_bar_hit fs_bar_hit = Some (ec2, fs2)
         \<and> saved_hl fs2 = None \<and> row ec2 = row ec_foo)"
proof -
  have si: "search_inv ec_foo find_state_init"
    by (simp add: search_inv_def find_state_init_def ec_foo_def)
  have a: "saved_hl find_state_init = None"
    "saved_hl fs_bar_hit = Some [HL_NORMAL, HL_NORMAL, HL_NORMAL]"
    "hl (row ec_bar_hit ! 1) = [HL_MATCH, HL_MATCH, HL_NORMAL]"
    "hl (row ec_foo ! 1) = [HL_NORMAL, HL_NORMAL, HL_NORMAL]"
    by (simp_all add: find_state_init_def fs_bar_hit_def ec_bar_hit_def ec_foo_def)
  note inst = search_highlight_restored [OF doc_inv_ec_foo si,
      of "[(''b'', 98), (''ba'', 97)]" "''bax''" 120]
  have "\<exists>ec0 f0 ec1 fs1 ec2 fs2.
          find_restore ec_foo find_state_init = Some (ec0, f0)
          \<and> (saved_hl find_state_init = None \<longrightarrow> ec0 = ec_foo)
          \<and> find_session [(''b'', 98), (''ba'', 97)] ec_foo find_state_init = Some (ec1, fs1)
          \<and> length (row ec1) = length (row ec0)
          \<and> (\<forall>j < length (row ec0). j \<noteq> nat (saved_hl_line fs1) \<longrightarrow> row ec1 ! j = row ec0 ! j)
          \<and> (\<forall>sv. saved_hl fs1 = Some sv \<longrightarrow>
                sv = hl (row ec0 ! nat (saved_hl_line fs1))
                \<and> same_text (row ec0 ! nat (saved_hl_line fs1)) (row ec1 ! nat (saved_hl_line fs1)))
          \<and> editor_find_callback ''bax'' 120 ec1 fs1 = Some (ec2, fs2)
          \<and> (saved_hl fs2 = None \<longrightarrow> row ec2 = row ec0)
          \<and> doc_inv ec2 \<and> search_inv ec2 fs2"
    using inst by (rule conjunct2)
  then obtain ec0 ec1 fs1 ec2 fs2 where
    same0: "saved_hl find_state_init = None \<longrightarrow> ec0 = ec_foo"
    and run1: "find_session [(''b'', 98), (''ba'', 97)] ec_foo find_state_init = Some (ec1, fs1)"
    and run2: "editor_find_callback ''bax'' 120 ec1 fs1 = Some (ec2, fs2)"
    and orig: "saved_hl fs2 = None \<longrightarrow> row ec2 = row ec0"
    by (elim exE conjE)
  have e0: "ec0 = ec_foo"
    using same0 a(1) by simp
  have e1: "ec1 = ec_bar_hit" "fs1 = fs_bar_hit"
    using run1 find_session_b_ba by simp_all
  have run: "editor_find_callback ''bax'' 120 ec_bar_hit fs_bar_hit = Some (ec2, fs2)"
    using run2 e1 by simp
  have none: "saved_hl fs2 = None"
    using find_bax_misses run by simp
  then have "row ec2 = row ec_foo"
    using orig e0 by simp
  with run none have e: "\<exists>ec2 fs2. editor_find_callback ''bax'' 120 ec_bar_hit fs_bar_hit = Some (ec2, fs2)
         \<and> saved_hl fs2 = None \<and> row ec2 = row ec_foo"
    by (intro exI [of _ ec2] exI [of _ fs2] conjI)
  from doc_inv_ec_foo si find_session_b_ba a(2,3,4) e show ?thesis
    by (intro conjI)
qed

text \<open>
  Claim C4. At a position \<open>i\<close> of the render text, the loop over the keyword entries
  returns the class and length of the first entry that stands at \<open>i\<close>, and nothing when
  there is none; an entry stands at \<open>i\<close> when its text (without the marker \<^verbatim>\<open>|\<close> of the
  secondary keywords) is exactly the text at \<open>i\<close> and the byte behind it is a separator
  or the row ends there. So a match of length \<open>klen\<close> means that an entry has the \<open>klen\<close>
  bytes at \<open>i\<close> as its text and that a separator or the end of the row follows. For the
  row \<^verbatim>\<open>integer\<close> under the C syntax definition, the highlighter leaves all seven bytes
  \<^verbatim>\<open>HL_NORMAL\<close>: the prefix \<^verbatim>\<open>int\<close> is not classified as \<^verbatim>\<open>HL_KEYWORD2\<close>.
\<close>

theorem keyword_match_boundary:
  assumes "i \<le> length rnd"
  shows "match_keywords kws rnd i
       = (case List.find (keyword_at rnd i) kws of
            None \<Rightarrow> None
          | Some kw \<Rightarrow> Some (kw_class kw, length (kw_text kw)))
     \<and> (match_keywords kws rnd i = Some (cls, klen) \<longrightarrow>
          (\<exists>kw \<in> set kws. kw_text kw = take klen (drop i rnd) \<and> length (kw_text kw) = klen
              \<and> cls = kw_class kw \<and> i + klen \<le> length rnd
              \<and> (i + klen = length rnd \<or> is_separator (rnd ! (i + klen)))))
     \<and> is_separator ch = (isspace ch \<or> ch = NUL \<or> ch \<in> set '',.()+-/*=~%<>[];'')
     \<and> map_option (\<lambda>e. hl (row e ! 0)) (editor_update_syntax ec_integer 0)
          = Some (replicate 7 HL_NORMAL)"
proof -
  note char = match_keywords_find [OF assms, of kws]
  have only: "\<exists>kw \<in> set kws. kw_text kw = take klen (drop i rnd) \<and> length (kw_text kw) = klen
              \<and> cls = kw_class kw \<and> i + klen \<le> length rnd
              \<and> (i + klen = length rnd \<or> is_separator (rnd ! (i + klen)))"
    if m: "match_keywords kws rnd i = Some (cls, klen)"
  proof -
    from m char obtain kw where f: "List.find (keyword_at rnd i) kws = Some kw"
      and c: "cls = kw_class kw" and k: "klen = length (kw_text kw)"
      by (cases "List.find (keyword_at rnd i) kws") auto
    from find_Some_first [OF f] have mem: "kw \<in> set kws" and at: "keyword_at rnd i kw"
      by auto
    from at have t: "take klen (drop i rnd) = kw_text kw"
      and s: "i + klen = length rnd \<or> is_separator (rnd ! (i + klen))"
      and b: "i + klen \<le> length rnd"
      by (auto simp: keyword_at_def k)
    from mem t k c b s show ?thesis
      by (intro bexI [of _ kw]) simp_all
  qed
  show ?thesis
    using char only update_syntax_integer by (simp add: is_separator_def)
qed

text \<open>The rows \<^verbatim>\<open>int x\<close> and \<^verbatim>\<open>integer\<close> at position 0 under the keywords of the C syntax
  definition: the first matches as a secondary keyword of length 3, in front of a space;
  the second matches nothing.\<close>

theorem keyword_match_boundary_witness:
  "(0 :: nat) \<le> length ''int x''
   \<and> match_keywords C_HL_KEY ''int x'' 0 = Some (HL_KEYWORD2, 3)
   \<and> (\<exists>kw \<in> set C_HL_KEY. kw_text kw = ''int'' \<and> kw_class kw = HL_KEYWORD2)
   \<and> is_separator (''int x'' ! 3)
   \<and> match_keywords C_HL_KEY ''integer'' 0 = None
   \<and> List.find (keyword_at ''integer'' 0) C_HL_KEY = None
   \<and> \<not> is_separator (''integer'' ! 3)"
proof -
  have le: "(0 :: nat) \<le> length ''int x''" "(0 :: nat) \<le> length ''integer''"
    by simp_all
  note a = keyword_match_boundary [OF le(1), of C_HL_KEY HL_KEYWORD2 3]
  have "\<exists>kw \<in> set C_HL_KEY. kw_text kw = take 3 (drop 0 ''int x'') \<and> length (kw_text kw) = 3
              \<and> HL_KEYWORD2 = kw_class kw \<and> 0 + 3 \<le> length ''int x''
              \<and> (0 + 3 = length ''int x'' \<or> is_separator (''int x'' ! (0 + 3)))"
    using a [THEN conjunct2, THEN conjunct1] keyword_examples(2) by (rule mp)
  then obtain kw where kw: "kw \<in> set C_HL_KEY" "kw_text kw = take 3 (drop 0 ''int x'')"
    "HL_KEYWORD2 = kw_class kw" "0 + 3 = length ''int x'' \<or> is_separator (''int x'' ! (0 + 3))"
    by (elim bexE conjE)
  have t: "kw_text kw = ''int''" "kw_class kw = HL_KEYWORD2"
    using kw(2,3) by simp_all
  have e: "\<exists>kw \<in> set C_HL_KEY. kw_text kw = ''int'' \<and> kw_class kw = HL_KEYWORD2"
    using kw(1) t by (intro bexI [of _ kw] conjI)
  have s: "is_separator (''int x'' ! 3)"
    using kw(4) by simp
  note b = keyword_match_boundary [OF le(2), of C_HL_KEY]
  have f: "List.find (keyword_at ''integer'' 0) C_HL_KEY = None"
    using b [THEN conjunct1] keyword_examples(1) by (cases "List.find (keyword_at ''integer'' 0) C_HL_KEY") simp_all
  have n: "\<not> is_separator (''integer'' ! 3)"
    by code_simp
  from le(1) keyword_examples(2) e s keyword_examples(1) f n show ?thesis
    by (intro conjI)
qed

text \<open>
  Claim C2. A row is consistent when its highlight array and its flag
  \<^verbatim>\<open>hl_open_comment\<close> are what the scan of its render text gives, started with the flag of
  the row in front of it (all \<^verbatim>\<open>HL_NORMAL\<close> when no syntax is selected). Running
  \<^verbatim>\<open>editor_update_syntax\<close> on a consistent row returns the document as it is: no highlight
  array and no flag changes, and since this holds whatever the rows behind it contain,
  the function does not go on to the following row. On a document all of whose rows are
  consistent this holds for every row. And on any well-formed document, one run on row
  \<open>k\<close> returns with row \<open>k\<close> consistent, so that a second run on it changes nothing.
\<close>

theorem update_syntax_idempotent:
  assumes "k < length (row ec)"
  shows "(row_consistent ec k \<longrightarrow> editor_update_syntax ec k = Some ec)
     \<and> (doc_consistent ec \<longrightarrow> (\<forall>j < length (row ec). editor_update_syntax ec j = Some ec))
     \<and> (doc_wf ec \<longrightarrow>
          (\<exists>ec'. editor_update_syntax ec k = Some ec' \<and> row_consistent ec' k
              \<and> editor_update_syntax ec' k = Some ec'))"
proof -
  have a: "row_consistent ec k \<longrightarrow> editor_update_syntax ec k = Some ec"
    using assms by (simp add: update_syntax_consistent)
  have b: "doc_consistent ec \<longrightarrow> (\<forall>j < length (row ec). editor_update_syntax ec j = Some ec)"
    by (simp add: update_syntax_consistent doc_consistent_row)
  have c: "\<exists>ec'. editor_update_syntax ec k = Some ec' \<and> row_consistent ec' k
              \<and> editor_update_syntax ec' k = Some ec'" if wf: "doc_wf ec"
  proof -
    from update_syntax_makes_consistent [OF wf assms] obtain ec'
      where run: "editor_update_syntax ec k = Some ec'" and cons: "row_consistent ec' k"
        and len: "length (row ec') = length (row ec)"
      by (elim exE conjE)
    have "editor_update_syntax ec' k = Some ec'"
      using assms len cons by (intro update_syntax_consistent) simp_all
    with run cons show ?thesis
      by (intro exI [of _ ec'] conjI)
  qed
  from a b c show ?thesis
    by (intro conjI impI) simp_all
qed

lemma scan_comment_rows:
  "hls (scan_loop (HLDB ! 0) ''/*a'' (scan_init ''/*a'' False))
     = [HL_MLCOMMENT, HL_MLCOMMENT, HL_MLCOMMENT]"
  "in_comment (scan_loop (HLDB ! 0) ''/*a'' (scan_init ''/*a'' False)) = True"
  "hls (scan_loop (HLDB ! 0) ''b*/'' (scan_init ''b*/'' True))
     = [HL_MLCOMMENT, HL_MLCOMMENT, HL_MLCOMMENT]"
  "in_comment (scan_loop (HLDB ! 0) ''b*/'' (scan_init ''b*/'' True)) = False"
  by code_simp+

lemma update_syntax_stale: "editor_update_syntax ec_stale 0 = Some ec_comment"
  apply (subst editor_update_syntax.simps)
  apply (simp add: ec_stale_def Let_def incoming_comment_def scan_comment_rows)
  apply (subst editor_update_syntax.simps)
  apply (simp add: Let_def incoming_comment_def row_at_def scan_comment_rows ec_comment_def)
  done

lemma doc_wf_examples: "doc_wf ec_comment" "doc_wf ec_stale"
  by code_simp+

lemma stale_examples: "\<not> row_consistent ec_stale 0" "row_consistent ec_stale 1"
  by code_simp+

text \<open>The document \<open>ec_comment\<close> is consistent, and a run on any of its rows returns it as
  it is. In \<open>ec_stale\<close> the first two rows carry the highlight of plain text; a run on row
  0 marks the comment, goes on to row 1, and returns \<open>ec_comment\<close>, on which a second run
  changes nothing.\<close>

theorem update_syntax_idempotent_witness:
  "0 < length (row ec_comment) \<and> row_consistent ec_comment 0 \<and> doc_consistent ec_comment
   \<and> editor_update_syntax ec_comment 0 = Some ec_comment
   \<and> editor_update_syntax ec_comment 1 = Some ec_comment
   \<and> editor_update_syntax ec_comment 2 = Some ec_comment
   \<and> 0 < length (row ec_stale) \<and> doc_wf ec_stale \<and> \<not> row_consistent ec_stale 0
   \<and> editor_update_syntax ec_stale 0 = Some ec_comment
   \<and> ec_comment \<noteq> ec_stale"
proof -
  have l: "0 < length (row ec_comment)" "1 < length (row ec_comment)"
    "2 < length (row ec_comment)" "0 < length (row ec_stale)"
    by (simp_all add: ec_comment_def ec_stale_def)
  have r0: "row_consistent ec_comment 0"
    using doc_consistent_ec_comment l(1) by (rule doc_consistent_row)
  note a = update_syntax_idempotent [OF l(1)]
  have all: "\<forall>j < length (row ec_comment). editor_update_syntax ec_comment j = Some ec_comment"
    using a [THEN conjunct2, THEN conjunct1] doc_consistent_ec_comment by (rule mp)
  have u: "editor_update_syntax ec_comment 0 = Some ec_comment"
    "editor_update_syntax ec_comment 1 = Some ec_comment"
    "editor_update_syntax ec_comment 2 = Some ec_comment"
    using all l by simp_all
  have ne: "ec_comment \<noteq> ec_stale"
    by (simp add: ec_comment_def ec_stale_def)
  from l(1) r0 doc_consistent_ec_comment u l(4) doc_wf_examples(2) stale_examples(1)
    update_syntax_stale ne
  show ?thesis
    by (intro conjI)
qed

end
